theory Spec2Isabelle
  imports
    Main
    "HOL-Library.Char_ord"
    "HOL-Library.List_Lexorder"
    "HOL-Library.Product_Lexorder"
    "HOL-Library.Multiset"
begin

section \<open>The catalog tree of catcli (noder.py)\<close>

text \<open>
  A catalog is a tree of \<^verbatim>\<open>anytree.AnyNode\<close> objects.  Such a node is a bag of
  attributes given as keyword arguments by the constructors of \<^verbatim>\<open>Noder\<close>
  (\<^verbatim>\<open>_node\<close>, \<^verbatim>\<open>archive_node\<close>, \<^verbatim>\<open>storage_node\<close>, \<^verbatim>\<open>new_top_node\<close>) plus
  the ordered tuple of its children.  An attribute that a constructor does not pass does
  not exist on the node (reading it raises \<^verbatim>\<open>AttributeError\<close>); an attribute
  may also exist and hold \<^verbatim>\<open>None\<close> (\<^verbatim>\<open>_node\<close> gives a directory \<^verbatim>\<open>size=None\<close>).
  Both states are kept apart: a field is \<open>None\<close> when the attribute is absent, and an
  attribute that may hold \<^verbatim>\<open>None\<close> has a \<open>nullable\<close> value (\<open>Some PyNone\<close> is
  Python's \<^verbatim>\<open>None\<close>, \<open>Some (Val v)\<close> the value \<open>v\<close>).  Sizes are Python integers
  (\<^verbatim>\<open>st_size\<close>, \<open>0\<close>, and sums of them), hence \<open>int\<close>; names, paths and digests are
  strings.  The timestamp \<^verbatim>\<open>ts\<close> of a storage is read by no function modelled here.
\<close>

datatype 'a nullable = PyNone | Val 'a

datatype pyerr =
    AttributeError
  | TypeError
  | IndexError
  | ChildResolverError
  | ResolverError
  | ValueError
  | DanglingRef

record attrs =
  name :: string
  ntype :: string
  relpath :: "string option"
  nsize :: "int nullable option"
  md5 :: "string nullable option"
  archive :: "string option"
  free :: "int option"
  total :: "int option"
  attr :: "string list nullable option"

datatype node = Node (attrs: attrs) (children: "node list")

definition TYPE_TOP :: string where "TYPE_TOP = ''top''"
definition TYPE_FILE :: string where "TYPE_FILE = ''file''"
definition TYPE_DIR :: string where "TYPE_DIR = ''dir''"
definition TYPE_ARC :: string where "TYPE_ARC = ''arc''"
definition TYPE_STORAGE :: string where "TYPE_STORAGE = ''storage''"
definition TYPE_META :: string where "TYPE_META = ''meta''"

subsection \<open>Size aggregation: \<^verbatim>\<open>rec_size\<close>\<close>

text \<open>
  \<^verbatim>\<open>
  def rec_size(self, node):
      if node.type == self.TYPE_FILE:
          return node.size
      size = 0
      for i in node.children:
          if node.type == self.TYPE_DIR:
              size += self.rec_size(i)
          if node.type == self.TYPE_STORAGE:
              self.rec_size(i)
          else:
              continue
      node.size = size
      return size
  \<close>
  The function mutates the tree, so the model returns the value together with the
  updated node.  \<open>rec_size_children ty cs sz\<close> is the \<^verbatim>\<open>for\<close> loop over the children
  \<open>cs\<close> of a node of type \<open>ty\<close> with the running total \<open>sz\<close>.  \<^verbatim>\<open>size += v\<close> raises
  \<^verbatim>\<open>TypeError\<close> unless \<open>v\<close> is an integer; \<^verbatim>\<open>node.size\<close> of a file without the
  attribute raises \<^verbatim>\<open>AttributeError\<close>.  The two type tests of the loop body exclude
  each other (the tags differ), so the body is written as one chain.
\<close>

fun rec_size :: "node \<Rightarrow> pyerr + (int nullable \<times> node)"
  and rec_size_children :: "string \<Rightarrow> node list \<Rightarrow> int \<Rightarrow> pyerr + (int \<times> node list)"
where
  "rec_size (Node a cs) =
     (if ntype a = TYPE_FILE then
        (case nsize a of
           None \<Rightarrow> Inl AttributeError
         | Some v \<Rightarrow> Inr (v, Node a cs))
      else
        (case rec_size_children (ntype a) cs 0 of
           Inl e \<Rightarrow> Inl e
         | Inr (sz, cs') \<Rightarrow> Inr (Val sz, Node (a\<lparr>nsize := Some (Val sz)\<rparr>) cs')))"
| "rec_size_children ty [] sz = Inr (sz, [])"
| "rec_size_children ty (i # rest) sz =
     (if ty = TYPE_DIR then
        (case rec_size i of
           Inl e \<Rightarrow> Inl e
         | Inr (v, i') \<Rightarrow>
             (case v of
                PyNone \<Rightarrow> Inl TypeError
              | Val k \<Rightarrow>
                  (case rec_size_children ty rest (sz + k) of
                     Inl e \<Rightarrow> Inl e
                   | Inr (sz', rest') \<Rightarrow> Inr (sz', i' # rest'))))
      else if ty = TYPE_STORAGE then
        (case rec_size i of
           Inl e \<Rightarrow> Inl e
         | Inr (v, i') \<Rightarrow>
             (case rec_size_children ty rest sz of
                Inl e \<Rightarrow> Inl e
              | Inr (sz', rest') \<Rightarrow> Inr (sz', i' # rest')))
      else
        (case rec_size_children ty rest sz of
           Inl e \<Rightarrow> Inl e
         | Inr (sz', rest') \<Rightarrow> Inr (sz', i # rest')))"

subsection \<open>Node construction\<close>

text \<open>
  The constructors pass \<^verbatim>\<open>parent=parent\<close> to \<^verbatim>\<open>AnyNode\<close>, which appends the new
  node to the parent's children.  The model builds the node with no children
  and attaches it with \<open>add_child\<close>.  \<open>mk_node\<close> is \<^verbatim>\<open>_node\<close>; \<open>storage_node\<close>
  takes the two figures of \<^verbatim>\<open>psutil.disk_usage\<close> as arguments.
\<close>

definition TOPNAME :: string where "TOPNAME = ''top''"

definition blank :: "string \<Rightarrow> string \<Rightarrow> attrs" where
  "blank n t = \<lparr>name = n, ntype = t, relpath = None, nsize = None, md5 = None,
     archive = None, free = None, total = None, attr = None\<rparr>"

definition new_top_node :: node where
  "new_top_node = Node (blank TOPNAME TYPE_TOP) []"

definition mk_node :: "string \<Rightarrow> string \<Rightarrow> string \<Rightarrow> int nullable \<Rightarrow> string nullable \<Rightarrow> node" where
  "mk_node n t rp sz h =
     Node ((blank n t)\<lparr>relpath := Some rp, nsize := Some sz, md5 := Some h\<rparr>) []"

definition archive_node :: "string \<Rightarrow> string \<Rightarrow> string \<Rightarrow> node" where
  "archive_node n path arc =
     Node ((blank n TYPE_ARC)\<lparr>relpath := Some path, nsize := Some (Val 0), md5 := Some PyNone,
       archive := Some arc\<rparr>) []"

definition storage_node :: "string \<Rightarrow> int \<Rightarrow> int \<Rightarrow> string list nullable \<Rightarrow> node" where
  "storage_node n fr tot tags =
     Node ((blank n TYPE_STORAGE)\<lparr>free := Some fr, total := Some tot, attr := Some tags\<rparr>) []"

definition add_child :: "node \<Rightarrow> node \<Rightarrow> node" where
  "add_child p c = Node (attrs p) (children p @ [c])"

subsection \<open>The nodes of a subtree, and what the specification says of sizes\<close>

text \<open>
  \<open>subtree_nodes\<close> lists a node and its descendants in pre-order (the order of
  \<^verbatim>\<open>anytree.PreOrderIter\<close>).  \<open>descendant_files_size\<close> is the specification's
  "sum of the sizes of the descendant File nodes" of a node.
\<close>

fun subtree_nodes :: "node \<Rightarrow> node list" where
  "subtree_nodes (Node a cs) = Node a cs # concat (map subtree_nodes cs)"


definition stored_size :: "node \<Rightarrow> int" where
  "stored_size n = (case nsize (attrs n) of Some (Val k) \<Rightarrow> k | _ \<Rightarrow> 0)"

definition is_file :: "node \<Rightarrow> bool" where
  "is_file n = (ntype (attrs n) = TYPE_FILE)"

definition file_sum :: "node \<Rightarrow> int" where
  "file_sum n = sum_list (map stored_size (filter is_file (subtree_nodes n)))"




subsection \<open>The example catalog of the specification\<close>

text \<open>
  Storage "usb1" (free 2000, total 5000) holds the directory "music", which holds the
  files "song.mp3" (1000 bytes) and "cover.jpg" (500 bytes).
\<close>

definition ex_song :: node where
  "ex_song = mk_node ''song.mp3'' TYPE_FILE ''usb1/music/song.mp3'' (Val 1000) PyNone"

definition ex_cover :: node where
  "ex_cover = mk_node ''cover.jpg'' TYPE_FILE ''usb1/music/cover.jpg'' (Val 500) PyNone"

definition ex_music :: node where
  "ex_music = add_child (add_child (mk_node ''music'' TYPE_DIR ''music'' PyNone PyNone) ex_song) ex_cover"

definition ex_usb1 :: node where
  "ex_usb1 = add_child (storage_node ''usb1'' 2000 5000 PyNone) ex_music"

definition ex_catalog :: node where
  "ex_catalog = add_child new_top_node ex_usb1"

definition ex_music_aggregated :: node where
  "ex_music_aggregated = Node ((attrs ex_music)\<lparr>nsize := Some (Val 1500)\<rparr>) [ex_song, ex_cover]"

definition ex_usb1_aggregated :: node where
  "ex_usb1_aggregated = Node ((attrs ex_usb1)\<lparr>nsize := Some (Val 0)\<rparr>) [ex_music_aggregated]"

subsection \<open>Ordering siblings: \<^verbatim>\<open>_sort_tree\<close>\<close>

text \<open>
  \<^verbatim>\<open>
  def _sort_tree(self, items):
      return sorted(items, key=self._sort, reverse=self.sortsize)
  def _sort(self, x):
      if self.sortsize:
          return self._sort_size(x)
      return self._sort_fs(x)
  def _sort_fs(self, n):
      return (n.type, n.name.lstrip('\.').lower())
  def _sort_size(self, n):
      try:
          if not n.size:
              return 0
          return n.size
      except AttributeError:
          return 0
  \<close>
  \<open>py_sorted\<close> is Python's built-in \<^verbatim>\<open>sorted(xs, key=..., reverse=...)\<close>: a stable sort by
  key; with \<^verbatim>\<open>reverse=True\<close> the list is reversed, sorted and reversed again, so that the
  result descends and elements with equal keys still keep their original order.
  Strings compare by code point, lexicographically, and tuples lexicographically.
  A string is the list of the bytes of its UTF-8 encoding, whose lexicographic order is
  the order by code point.  \<^verbatim>\<open>str.lower\<close> lower-cases every cased character of Unicode by
  a table that is no part of this program: it is the parameter \<open>lower\<close> of every function
  that calls it, and what is proved holds for every such function.  \<open>lower_ascii\<close> is
  \<^verbatim>\<open>str.lower\<close> on strings of ASCII characters, where only the letters A to Z change;
  the examples, whose names are ASCII, are evaluated with it.
  \<open>py_lstrip\<close> is \<^verbatim>\<open>str.lstrip(chars)\<close>.  The literal \<^verbatim>\<open>'\.'\<close> is the two
  characters backslash and dot.  The flag \<open>sortsize\<close> selects the key and is also the
  \<^verbatim>\<open>reverse\<close> argument; the two keys have different types, so \<^verbatim>\<open>_sort\<close> is unfolded
  into \<open>sort_tree\<close>.
\<close>

definition py_sorted :: "('a \<Rightarrow> 'k::linorder) \<Rightarrow> bool \<Rightarrow> 'a list \<Rightarrow> 'a list" where
  "py_sorted key reverse xs = (if reverse then rev (sort_key key (rev xs)) else sort_key key xs)"

definition ascii_lower :: "char \<Rightarrow> char" where
  "ascii_lower c =
     (case map_of (zip ''ABCDEFGHIJKLMNOPQRSTUVWXYZ'' ''abcdefghijklmnopqrstuvwxyz'') c of
        Some l \<Rightarrow> l
      | None \<Rightarrow> c)"

definition lower_ascii :: "string \<Rightarrow> string" where
  "lower_ascii s = map ascii_lower s"

definition py_lstrip :: "string \<Rightarrow> string \<Rightarrow> string" where
  "py_lstrip chars s = dropWhile (\<lambda>c. c \<in> set chars) s"

definition sort_fs :: "(string \<Rightarrow> string) \<Rightarrow> node \<Rightarrow> string \<times> string" where
  "sort_fs lower n = (ntype (attrs n), lower (py_lstrip [CHR 0x5C, CHR ''.''] (name (attrs n))))"

definition sort_size :: "node \<Rightarrow> int" where
  "sort_size n =
     (case nsize (attrs n) of
        None \<Rightarrow> 0
      | Some PyNone \<Rightarrow> 0
      | Some (Val k) \<Rightarrow> (if k = 0 then 0 else k))"

definition sort_tree :: "(string \<Rightarrow> string) \<Rightarrow> bool \<Rightarrow> node list \<Rightarrow> node list" where
  "sort_tree lower sortsize items =
     (if sortsize then py_sorted sort_size sortsize items
      else py_sorted (sort_fs lower) sortsize items)"

definition ex_track :: node where
  "ex_track = mk_node ''Track.mp3'' TYPE_FILE ''usb1/music/Track.mp3'' (Val 1000) PyNone"

subsection \<open>Searching by name: \<^verbatim>\<open>find_name\<close>\<close>

text \<open>
  \<^verbatim>\<open>
  def _print_node(self, node, pre='', withpath=False, withdepth=False, withstorage=False):
      if node.type == self.TYPE_TOP:
          Logger.out('{}{}'.format(pre, node.name))
      elif node.type == self.TYPE_FILE:
          name = node.name
          if withpath:
              name = node.relpath
          if withstorage:
              storage = self._get_storage(node)
          attr = ''
          if node.md5:
              attr = ', md5:{}'.format(node.md5)
          compl = 'size:{}{}'.format(utils.human(node.size), attr)
          ...
      elif node.type == self.TYPE_DIR:
          name = node.name
          if withpath:
              name = node.relpath
          ...
          if withstorage:
              storage = self._get_storage(node)
          attr = []
          if node.size:
              ...
      elif node.type == self.TYPE_STORAGE:
          hf = utils.human(node.free)
          ht = utils.human(node.total)
          name = '{} (free:{}, total:{})'.format(node.name, hf, ht)
          Logger.storage(pre, name, node.attr)
      elif node.type == self.TYPE_ARC:
          if self.arc:
              Logger.arc(pre, node.name, node.archive)
      else:
          Logger.err('Weird node encountered: {}'.format(node))
  def _get_storage(self, node):
      return node.ancestors[1]
  \<close>
  The text that is printed goes to the logger, which is outside \<^verbatim>\<open>noder.py\<close>; the model
  keeps what can stop the caller: \<open>print_node\<close> is \<open>None\<close> when the node is printed and
  \<open>Some e\<close> when reading an attribute or the second ancestor raises \<open>e\<close>.  \<open>depth\<close> is
  the number of ancestors of the node.  The formatting helpers (\<^verbatim>\<open>utils.human\<close>,
  \<^verbatim>\<open>Logger\<close>) are taken not to raise.
\<close>

definition need :: "'a option \<Rightarrow> pyerr option \<Rightarrow> pyerr option" where
  "need a rest = (case a of None \<Rightarrow> Some AttributeError | Some v \<Rightarrow> rest)"

definition get_storage :: "nat \<Rightarrow> pyerr option \<Rightarrow> pyerr option" where
  "get_storage depth rest = (if depth < 2 then Some IndexError else rest)"

definition print_node :: "bool \<Rightarrow> bool \<Rightarrow> bool \<Rightarrow> nat \<Rightarrow> node \<Rightarrow> pyerr option" where
  "print_node arc withpath withstorage depth n =
     (let a = attrs n;
          path = (\<lambda>rest. if withpath then need (relpath a) rest else rest);
          storage = (\<lambda>rest. if withstorage then get_storage depth rest else rest) in
      if ntype a = TYPE_TOP then None
      else if ntype a = TYPE_FILE then path (storage (need (md5 a) (need (nsize a) None)))
      else if ntype a = TYPE_DIR then path (storage (need (nsize a) None))
      else if ntype a = TYPE_STORAGE then need (free a) (need (total a) (need (attr a) None))
      else if ntype a = TYPE_ARC then (if arc then need (archive a) None else None)
      else None)"

text \<open>
  \<^verbatim>\<open>
  def find_name(self, root, key, script=False):
      self.term = key
      found = anytree.findall(root, filter_=self._find_name)
      paths = []
      for f in found:
          if f.type == self.TYPE_STORAGE:
              # ignore storage nodes
              continue
          self._print_node(f, withpath=True, withdepth=True, withstorage=True)
          paths.append(f.relpath)
      if script:
          tmp = ['${source}/' + x for x in paths]
          cmd = 'op=file; source=/media/mnt; $op {}'.format(' '.join(tmp))
          Logger.info(cmd)
      return found
  def _find_name(self, node):
      if self.term.lower() in node.name.lower():
          return True
      return False
  \<close>
  \<^verbatim>\<open>anytree.findall\<close> returns, in pre-order, the nodes of the subtree of \<open>root\<close> that
  pass the filter.  \<open>py_in s t\<close> is Python's \<^verbatim>\<open>s in t\<close> on strings.  \<open>find_name\<close> is
  called on the root of the catalog, so a node's depth below \<open>root\<close> is the number of
  its ancestors.  The result is the pair of \<^verbatim>\<open>paths\<close> (the relative paths of the
  entries reported) and the returned \<^verbatim>\<open>found\<close>; the \<^verbatim>\<open>script\<close> branch only logs.
\<close>

fun py_in :: "string \<Rightarrow> string \<Rightarrow> bool" where
  "py_in s [] = (s = [])"
| "py_in s (c # cs) = (take (length s) (c # cs) = s \<or> py_in s cs)"

definition find_name_cb :: "(string \<Rightarrow> string) \<Rightarrow> string \<Rightarrow> node \<Rightarrow> bool" where
  "find_name_cb lower term n = py_in (lower term) (lower (name (attrs n)))"

fun preorder_depth :: "nat \<Rightarrow> node \<Rightarrow> (nat \<times> node) list" where
  "preorder_depth d (Node a cs) = (d, Node a cs) # concat (map (preorder_depth (Suc d)) cs)"

definition findall :: "node \<Rightarrow> (node \<Rightarrow> bool) \<Rightarrow> (nat \<times> node) list" where
  "findall root flt = filter (\<lambda>(d, n). flt n) (preorder_depth 0 root)"

fun find_name_loop :: "bool \<Rightarrow> (nat \<times> node) list \<Rightarrow> string list \<Rightarrow> pyerr + string list" where
  "find_name_loop arc [] paths = Inr paths"
| "find_name_loop arc ((d, f) # rest) paths =
     (if ntype (attrs f) = TYPE_STORAGE then find_name_loop arc rest paths
      else
        (case print_node arc True True d f of
           Some e \<Rightarrow> Inl e
         | None \<Rightarrow>
             (case relpath (attrs f) of
                None \<Rightarrow> Inl AttributeError
              | Some p \<Rightarrow> find_name_loop arc rest (paths @ [p]))))"

definition find_name ::
    "(string \<Rightarrow> string) \<Rightarrow> bool \<Rightarrow> node \<Rightarrow> string \<Rightarrow> pyerr + (string list \<times> node list)" where
  "find_name lower arc root key =
     (let found = findall root (find_name_cb lower key) in
      case find_name_loop arc found [] of
        Inl e \<Rightarrow> Inl e
      | Inr paths \<Rightarrow> Inr (paths, map snd found))"

subsection \<open>References into the tree\<close>

text \<open>
  The code holds references to nodes of one shared tree (\<^verbatim>\<open>top\<close>, \<^verbatim>\<open>parent\<close>,
  \<^verbatim>\<open>node.parent\<close>, \<^verbatim>\<open>node.root\<close>) and mutates the tree through them.  The model
  keeps the whole tree \<open>root\<close> and names a node by its location: the list of child
  indices that leads from the root to it.  Children are only ever appended, so a
  location stays valid when the tree grows.  \<open>DanglingRef\<close> is not a Python exception:
  it marks a location that names no node of the tree, which no reference of the
  program can be.
\<close>

type_synonym loc = "nat list"

fun node_at :: "node \<Rightarrow> loc \<Rightarrow> node option" where
  "node_at n [] = Some n"
| "node_at n (i # l) = (if i < length (children n) then node_at (children n ! i) l else None)"

fun attach :: "node \<Rightarrow> loc \<Rightarrow> node \<Rightarrow> node" where
  "attach n [] c = add_child n c"
| "attach n (i # l) c =
     (if i < length (children n)
      then Node (attrs n) ((children n)[i := attach (children n ! i) l c])
      else n)"

subsection \<open>Strings and paths\<close>

text \<open>
  \<open>split_sep sep s\<close> is \<^verbatim>\<open>s.split(sep)\<close> for a one-character separator (the result
  is never empty: the empty string splits into one empty part), \<open>py_join sep xs\<close> is
  \<^verbatim>\<open>sep.join(xs)\<close>, \<open>py_rstrip chars s\<close> is \<^verbatim>\<open>s.rstrip(chars)\<close>.  \<^verbatim>\<open>os.sep\<close> and
  the separator of \<^verbatim>\<open>anytree\<close> nodes are both the slash (POSIX).
\<close>

fun split_sep :: "char \<Rightarrow> string \<Rightarrow> string list" where
  "split_sep sep [] = [[]]"
| "split_sep sep (c # cs) =
     (if c = sep then [] # split_sep sep cs
      else (case split_sep sep cs of w # ws \<Rightarrow> (c # w) # ws | [] \<Rightarrow> [[c]]))"

fun py_join :: "string \<Rightarrow> string list \<Rightarrow> string" where
  "py_join sep [] = []"
| "py_join sep [x] = x"
| "py_join sep (x # y # ys) = x @ sep @ py_join sep (y # ys)"

definition py_rstrip :: "string \<Rightarrow> string \<Rightarrow> string" where
  "py_rstrip chars s = rev (dropWhile (\<lambda>c. c \<in> set chars) (rev s))"

definition os_sep :: char where "os_sep = CHR ''/''"

definition separator :: char where "separator = CHR ''/''"

subsection \<open>Exact resolution: \<^verbatim>\<open>get_node\<close> and \<^verbatim>\<open>anytree.resolver.Resolver.get\<close>\<close>

text \<open>
  \<^verbatim>\<open>
  def get_node(self, top, path):
      r = anytree.resolver.Resolver('name')
      try:
          return r.get(top, path)
      except anytree.resolver.ChildResolverError:
          Logger.err('No node at path \"{}\"'.format(path))
          return None
  \<close>
  \<^verbatim>\<open>Resolver.get\<close> belongs to the library \<^verbatim>\<open>anytree\<close>, which is not part of the
  repository; it is modelled after the library's implementation (versions 2.x):
  \<^verbatim>\<open>
  def get(self, node, path):
      node, parts = self.__start(node, path)
      for part in parts:
          if part == "..":
              node = node.parent
          elif part in ("", "."):
              pass
          else:
              node = self.__get(node, part)
      return node
  def __get(self, node, name):
      for child in node.children:
          if _getattr(child, self.pathattr) == name:
              return child
      raise ChildResolverError(node, name, self.pathattr)
  def __start(self, node, path):
      sep = node.separator
      parts = path.split(sep)
      if path.startswith(sep):
          node = node.root
          rootpart = _getattr(node, self.pathattr)
          parts.pop(0)
          if not parts[0]:
              raise ResolverError(node, "", "root node missing. ...")
          elif parts[0] != rootpart:
              raise ResolverError(node, "", "unknown root node ...")
          parts.pop(0)
      return node, parts
  \<close>
  \<^verbatim>\<open>ChildResolverError\<close> is a subclass of \<^verbatim>\<open>ResolverError\<close>; \<open>ResolverError\<close> below
  stands for the errors of \<^verbatim>\<open>__start\<close>, which \<^verbatim>\<open>get_node\<close> does not catch.  The
  current node is \<open>None\<close> after \<^verbatim>\<open>..\<close> has been followed from the root (its parent is
  Python's \<^verbatim>\<open>None\<close>); using it further raises \<^verbatim>\<open>AttributeError\<close>.
\<close>

fun find_child :: "string \<Rightarrow> node list \<Rightarrow> nat option" where
  "find_child nm [] = None"
| "find_child nm (c # cs) =
     (if name (attrs c) = nm then Some 0 else map_option Suc (find_child nm cs))"

definition resolver_start :: "node \<Rightarrow> loc \<Rightarrow> string \<Rightarrow> pyerr + (loc \<times> string list)" where
  "resolver_start root cur path =
     (let parts = split_sep separator path in
      if (case path of [] \<Rightarrow> False | c # cs \<Rightarrow> c = separator) then
        (case tl parts of
           [] \<Rightarrow> Inl IndexError
         | p0 # rest \<Rightarrow>
             if p0 = [] then Inl ResolverError
             else if p0 \<noteq> name (attrs root) then Inl ResolverError
             else Inr ([], rest))
      else Inr (cur, parts))"

fun resolver_get_parts :: "node \<Rightarrow> loc option \<Rightarrow> string list \<Rightarrow> pyerr + loc option" where
  "resolver_get_parts root cur [] = Inr cur"
| "resolver_get_parts root cur (part # parts) =
     (if part = ''..'' then
        (case cur of
           None \<Rightarrow> Inl AttributeError
         | Some l \<Rightarrow> resolver_get_parts root (if l = [] then None else Some (butlast l)) parts)
      else if part = [] \<or> part = ''.'' then resolver_get_parts root cur parts
      else
        (case cur of
           None \<Rightarrow> Inl AttributeError
         | Some l \<Rightarrow>
             (case node_at root l of
                None \<Rightarrow> Inl DanglingRef
              | Some n \<Rightarrow>
                  (case find_child part (children n) of
                     None \<Rightarrow> Inl ChildResolverError
                   | Some i \<Rightarrow> resolver_get_parts root (Some (l @ [i])) parts))))"

definition resolver_get :: "node \<Rightarrow> loc \<Rightarrow> string \<Rightarrow> pyerr + loc option" where
  "resolver_get root cur path =
     (case resolver_start root cur path of
        Inl e \<Rightarrow> Inl e
      | Inr (start, parts) \<Rightarrow> resolver_get_parts root (Some start) parts)"

definition get_node :: "node \<Rightarrow> loc \<Rightarrow> string \<Rightarrow> pyerr + loc option" where
  "get_node root top_loc path =
     (case resolver_get root top_loc path of
        Inl e \<Rightarrow> (if e = ChildResolverError then Inr None else Inl e)
      | Inr r \<Rightarrow> Inr r)"

text \<open>
  The specification's exact resolution: walk segment by segment, at each segment take
  the child of that exact name (the first one, should several share it), fail at the
  first segment that no child matches.
\<close>

fun walk_names :: "node \<Rightarrow> string list \<Rightarrow> node option" where
  "walk_names n [] = Some n"
| "walk_names n (s # ss) =
     (case find (\<lambda>c. name (attrs c) = s) (children n) of
        None \<Rightarrow> None
      | Some c \<Rightarrow> walk_names c ss)"

definition name_segment :: "string \<Rightarrow> bool" where
  "name_segment s = (s \<noteq> [] \<and> s \<noteq> ''.'' \<and> s \<noteq> ''..'')"

subsection \<open>Archive members: \<^verbatim>\<open>_add_entry\<close> and \<^verbatim>\<open>list_to_tree\<close>\<close>

text \<open>
  \<^verbatim>\<open>
  def _add_entry(self, name, top, resolv):
      entries = name.rstrip(os.sep).split(os.sep)
      if len(entries) == 1:
          self.archive_node(name, name, top, top.name)
          return
      sub = os.sep.join(entries[:-1])
      f = entries[-1]
      try:
          parent = resolv.get(top, sub)
          parent = self.archive_node(f, name, parent, top.name)
      except anytree.resolver.ChildResolverError:
          self.archive_node(f, name, top, top.name)
  def list_to_tree(self, parent, names):
      if not names:
          return
      r = anytree.resolver.Resolver('name')
      for name in names:
          name = name.rstrip(os.sep)
          self._add_entry(name, parent, r)
  \<close>
  \<^verbatim>\<open>archive_node(name, path, parent, archive)\<close> makes the node a child of \<open>parent\<close>;
  the model returns the tree with the node attached.  When \<^verbatim>\<open>resolv.get\<close> returns
  \<^verbatim>\<open>None\<close> (the path climbed above the root), the new node has no parent and the tree
  is unchanged.
\<close>

definition add_entry :: "node \<Rightarrow> loc \<Rightarrow> string \<Rightarrow> pyerr + node" where
  "add_entry root top_loc nm =
     (case node_at root top_loc of
        None \<Rightarrow> Inl DanglingRef
      | Some t \<Rightarrow>
          (let entries = split_sep os_sep (py_rstrip [os_sep] nm) in
           if length entries = 1
           then Inr (attach root top_loc (archive_node nm nm (name (attrs t))))
           else
             (let sub = py_join [os_sep] (butlast entries); f = last entries in
              case resolver_get root top_loc sub of
                Inr (Some parent) \<Rightarrow> Inr (attach root parent (archive_node f nm (name (attrs t))))
              | Inr None \<Rightarrow> Inr root
              | Inl e \<Rightarrow>
                  if e = ChildResolverError
                  then Inr (attach root top_loc (archive_node f nm (name (attrs t))))
                  else Inl e)))"

fun list_to_tree :: "node \<Rightarrow> loc \<Rightarrow> string list \<Rightarrow> pyerr + node" where
  "list_to_tree root parent [] = Inr root"
| "list_to_tree root parent (nm # names) =
     (case add_entry root parent (py_rstrip [os_sep] nm) of
        Inl e \<Rightarrow> Inl e
      | Inr root' \<Rightarrow> list_to_tree root' parent names)"

text \<open>
  The specification's third scenario: the file "photos.zip" under the storage "usb1".
\<close>

definition ex_photos :: node where
  "ex_photos = mk_node ''photos.zip'' TYPE_FILE ''usb1/photos.zip'' (Val 4096) PyNone"

definition ex_zip_catalog :: node where
  "ex_zip_catalog =
     add_child new_top_node (add_child (storage_node ''usb1'' 2000 5000 PyNone) ex_photos)"

definition ex_photos_listed :: node where
  "ex_photos_listed = add_child ex_photos (archive_node ''b.jpg'' ''a/b.jpg'' ''photos.zip'')"

text \<open>
  An archive whose listing holds the members \<^verbatim>\<open>x\<close>, \<^verbatim>\<open>x/y\<close> and \<^verbatim>\<open>a/x\<close>: the
  second goes below the first, and the third, whose parent \<^verbatim>\<open>a\<close> is no node, goes
  below the file under its last segment, a second child named \<^verbatim>\<open>x\<close>.
\<close>

definition ex_zip_members :: node where
  "ex_zip_members =
     add_child new_top_node
       (add_child (storage_node ''usb1'' 2000 5000 PyNone)
          (add_child
             (add_child ex_photos
                (add_child (archive_node ''x'' ''x'' ''photos.zip'')
                   (archive_node ''y'' ''x/y'' ''photos.zip'')))
             (archive_node ''x'' ''a/x'' ''photos.zip'')))"

subsection \<open>Glob resolution: \<^verbatim>\<open>walk\<close> and \<^verbatim>\<open>anytree.resolver.Resolver.glob\<close>\<close>

text \<open>
  \<^verbatim>\<open>Resolver.glob\<close> is modelled after the library's implementation (versions 2.x):
  \<^verbatim>\<open>
  def glob(self, node, path):
      node, parts = self.__start(node, path)
      return self.__glob(node, parts)
  def __glob(self, node, parts):
      nodes = []
      name = parts[0]
      remainder = parts[1:]
      if name == "..":
          nodes += self.__glob(node.parent, remainder)
      elif name in ("", "."):
          nodes += self.__glob(node, remainder)
      else:
          matches = self.__find(node, name, remainder)
          if not matches and not Resolver.is_wildcard(name):
              raise ChildResolverError(node, name, self.pathattr)
          nodes += matches
      return nodes
  def __find(self, node, pat, remainder):
      matches = []
      for child in node.children:
          name = _getattr(child, self.pathattr)
          try:
              if Resolver.__match(name, pat):
                  if remainder:
                      matches += self.__glob(child, remainder)
                  else:
                      matches.append(child)
          except ResolverError as exc:
              if not Resolver.is_wildcard(pat):
                  raise exc
      return matches
  def is_wildcard(path):
      return "?" in path or "*" in path
  \<close>
  \<^verbatim>\<open>__match(name, pat)\<close> compiles \<^verbatim>\<open>fnmatch.translate(pat)\<close> and matches the name against
  it; the model takes this matcher as the parameter \<open>fnm\<close>, so that what is proved holds
  for every matcher.  A match is the pair of a location and the node found there.
\<close>

definition is_wildcard :: "string \<Rightarrow> bool" where
  "is_wildcard path = (CHR ''?'' \<in> set path \<or> CHR ''*'' \<in> set path)"

definition is_resolver_error :: "pyerr \<Rightarrow> bool" where
  "is_resolver_error e = (e = ResolverError \<or> e = ChildResolverError)"

function resolver_glob_parts ::
    "(string \<Rightarrow> string \<Rightarrow> bool) \<Rightarrow> node \<Rightarrow> loc option \<Rightarrow> string list \<Rightarrow> pyerr + (loc \<times> node) list"
  and resolver_find ::
    "(string \<Rightarrow> string \<Rightarrow> bool) \<Rightarrow> node \<Rightarrow> loc \<Rightarrow> (nat \<times> node) list \<Rightarrow> string \<Rightarrow> string list
       \<Rightarrow> pyerr + (loc \<times> node) list"
where
  "resolver_glob_parts fnm root cur [] = Inl IndexError"
| "resolver_glob_parts fnm root cur (nm # remainder) =
     (if nm = ''..'' then
        (case cur of
           None \<Rightarrow> Inl AttributeError
         | Some l \<Rightarrow>
             resolver_glob_parts fnm root (if l = [] then None else Some (butlast l)) remainder)
      else if nm = [] \<or> nm = ''.'' then resolver_glob_parts fnm root cur remainder
      else
        (case cur of
           None \<Rightarrow> Inl AttributeError
         | Some l \<Rightarrow>
             (case node_at root l of
                None \<Rightarrow> Inl DanglingRef
              | Some n \<Rightarrow>
                  (case resolver_find fnm root l (enumerate 0 (children n)) nm remainder of
                     Inl e \<Rightarrow> Inl e
                   | Inr matches \<Rightarrow>
                       if matches = [] \<and> \<not> is_wildcard nm then Inl ChildResolverError
                       else Inr matches))))"
| "resolver_find fnm root l [] pat remainder = Inr []"
| "resolver_find fnm root l ((i, child) # rest) pat remainder =
     (if fnm (name (attrs child)) pat then
        (if remainder \<noteq> [] then
           (case resolver_glob_parts fnm root (Some (l @ [i])) remainder of
              Inl e \<Rightarrow>
                if is_resolver_error e \<and> is_wildcard pat
                then resolver_find fnm root l rest pat remainder
                else Inl e
            | Inr ms \<Rightarrow>
                (case resolver_find fnm root l rest pat remainder of
                   Inl e \<Rightarrow> Inl e
                 | Inr ms' \<Rightarrow> Inr (ms @ ms')))
         else
           (case resolver_find fnm root l rest pat remainder of
              Inl e \<Rightarrow> Inl e
            | Inr ms' \<Rightarrow> Inr ((l @ [i], child) # ms')))
      else resolver_find fnm root l rest pat remainder)"
  by pat_completeness auto
termination
  by (relation "measures
        [\<lambda>x. case x of Inl (fnm, root, cur, parts) \<Rightarrow> 2 * length parts
                      | Inr (fnm, root, l, cs, pat, remainder) \<Rightarrow> 2 * length remainder + 1,
         \<lambda>x. case x of Inl (fnm, root, cur, parts) \<Rightarrow> 0
                      | Inr (fnm, root, l, cs, pat, remainder) \<Rightarrow> length cs]")
     auto

definition resolver_glob ::
    "(string \<Rightarrow> string \<Rightarrow> bool) \<Rightarrow> node \<Rightarrow> loc \<Rightarrow> string \<Rightarrow> pyerr + (loc \<times> node) list" where
  "resolver_glob fnm root cur path =
     (case resolver_start root cur path of
        Inl e \<Rightarrow> Inl e
      | Inr (start, parts) \<Rightarrow> resolver_glob_parts fnm root (Some start) parts)"

text \<open>
  \<^verbatim>\<open>
  def print_tree(self, node, style=anytree.ContRoundStyle()):
      rend = anytree.RenderTree(node, childiter=self._sort_tree)
      for pre, fill, node in rend:
          self._print_node(node, pre=pre, withdepth=True)
  def walk(self, root, path, rec=False):
      r = anytree.resolver.Resolver('name')
      found = []
      try:
          found = r.glob(root, path)
          if len(found) < 1:
              return []
          if rec:
              self.print_tree(found[0].parent)
              return
          found = sorted(found, key=self._sort, reverse=self.sortsize)
          self._print_node(found[0].parent, withpath=False, withdepth=True)
          for f in found:
              self._print_node(f, withpath=False, pre='- ', withdepth=True)
      except anytree.resolver.ChildResolverError:
          pass
      return found
  \<close>
  \<^verbatim>\<open>RenderTree\<close> visits the subtree in pre-order, the children of each node in the order
  of \<^verbatim>\<open>_sort_tree\<close>.  \<open>walk\<close> returns \<open>Some found\<close> for a list and \<open>None\<close> for the bare
  \<^verbatim>\<open>return\<close> of the recursive listing.  The parent of a match at the root of the tree is
  \<^verbatim>\<open>None\<close>, and printing it raises \<^verbatim>\<open>AttributeError\<close>.
\<close>

function render_order :: "(string \<Rightarrow> string) \<Rightarrow> bool \<Rightarrow> node \<Rightarrow> node list" where
  "render_order lower sortsize (Node a cs) =
     Node a cs # concat (map (render_order lower sortsize) (sort_tree lower sortsize cs))"
  by pat_completeness auto
termination
  by (relation "measure (\<lambda>(lower, sortsize, n). size n)")
     (auto simp: sort_tree_def py_sorted_def less_Suc_eq_le split: if_splits
        intro: size_list_estimation')

fun print_all :: "bool \<Rightarrow> nat \<Rightarrow> node list \<Rightarrow> pyerr option" where
  "print_all arc d [] = None"
| "print_all arc d (n # ns) =
     (case print_node arc False False d n of
        Some e \<Rightarrow> Some e
      | None \<Rightarrow> print_all arc d ns)"

definition print_tree ::
    "(string \<Rightarrow> string) \<Rightarrow> bool \<Rightarrow> bool \<Rightarrow> nat \<Rightarrow> node \<Rightarrow> pyerr option" where
  "print_tree lower arc sortsize d n = print_all arc d (render_order lower sortsize n)"

definition sort_found ::
    "(string \<Rightarrow> string) \<Rightarrow> bool \<Rightarrow> (loc \<times> node) list \<Rightarrow> (loc \<times> node) list" where
  "sort_found lower sortsize found =
     (if sortsize then py_sorted (\<lambda>(l, n). sort_size n) sortsize found
      else py_sorted (\<lambda>(l, n). sort_fs lower n) sortsize found)"

definition parent_of :: "node \<Rightarrow> loc \<Rightarrow> node option" where
  "parent_of root l = (if l = [] then None else node_at root (butlast l))"

definition walk ::
    "(string \<Rightarrow> string) \<Rightarrow> (string \<Rightarrow> string \<Rightarrow> bool) \<Rightarrow> bool \<Rightarrow> bool \<Rightarrow> node \<Rightarrow> loc
       \<Rightarrow> string \<Rightarrow> bool \<Rightarrow> pyerr + (loc \<times> node) list option" where
  "walk lower fnm arc sortsize root root_loc path rec =
     (case resolver_glob fnm root root_loc path of
        Inl e \<Rightarrow> if e = ChildResolverError then Inr (Some []) else Inl e
      | Inr found \<Rightarrow>
          (case found of
             [] \<Rightarrow> Inr (Some [])
           | (l0, n0) # others \<Rightarrow>
               if rec then
                 (case parent_of root l0 of
                    None \<Rightarrow> Inl AttributeError
                  | Some p \<Rightarrow>
                      (case print_tree lower arc sortsize (length l0 - 1) p of
                         Some e \<Rightarrow> Inl e
                       | None \<Rightarrow> Inr None))
               else
                 (let sorted_found = sort_found lower sortsize found in
                  case parent_of root (fst (hd sorted_found)) of
                    None \<Rightarrow> Inl AttributeError
                  | Some p \<Rightarrow>
                      (case print_node arc False False (length (fst (hd sorted_found)) - 1) p of
                         Some e \<Rightarrow> Inl e
                       | None \<Rightarrow>
                           (case print_all arc 0 (map snd sorted_found) of
                              Some e \<Rightarrow> Inl e
                            | None \<Rightarrow> Inr (Some sorted_found))))))"

text \<open>
  The specification's glob resolution: all nodes matching the full pattern.  For a
  node and a list of segment patterns, \<open>match_paths\<close> lists, in pre-order, the paths of
  child indices (with the node reached) along which the names match the patterns one
  by one.  \<open>wild_match\<close> is the matcher of \<^verbatim>\<open>fnmatch\<close> for patterns made of literal
  characters, \<^verbatim>\<open>*\<close> and \<^verbatim>\<open>?\<close>; it instantiates \<open>fnm\<close> in the examples.
\<close>

fun match_paths :: "(string \<Rightarrow> string \<Rightarrow> bool) \<Rightarrow> node \<Rightarrow> string list \<Rightarrow> (loc \<times> node) list" where
  "match_paths fnm n [] = [([], n)]"
| "match_paths fnm n (p # ps) =
     concat (map (\<lambda>(i, c). if fnm (name (attrs c)) p
                            then map (\<lambda>(l, m). (i # l, m)) (match_paths fnm c ps)
                            else [])
       (enumerate 0 (children n)))"

fun wild_match :: "string \<Rightarrow> string \<Rightarrow> bool" where
  "wild_match [] [] = True"
| "wild_match (c # cs) [] = False"
| "wild_match nm (p # ps) =
     (if p = CHR ''*'' then
        wild_match nm ps \<or> (case nm of [] \<Rightarrow> False | c # cs \<Rightarrow> wild_match cs (p # ps))
      else
        (case nm of
           [] \<Rightarrow> False
         | c # cs \<Rightarrow> (p = CHR ''?'' \<or> p = c) \<and> wild_match cs ps))"

definition printable :: "bool \<Rightarrow> node \<Rightarrow> bool" where
  "printable arc n = (print_node arc False False 0 n = None)"

definition match_children ::
    "(string \<Rightarrow> string \<Rightarrow> bool) \<Rightarrow> string \<Rightarrow> string list \<Rightarrow> (nat \<times> node) list \<Rightarrow> (loc \<times> node) list" where
  "match_children fnm p ps ics =
     concat (map (\<lambda>(i, c). if fnm (name (attrs c)) p
                            then map (\<lambda>(l, m). (i # l, m)) (match_paths fnm c ps)
                            else []) ics)"

definition found_under :: "loc \<Rightarrow> (loc \<times> node) list \<Rightarrow> (loc \<times> node) list" where
  "found_under l ms = map (\<lambda>(p, m). (l @ p, m)) ms"

definition literal_segments :: "(string \<Rightarrow> string \<Rightarrow> bool) \<Rightarrow> string list \<Rightarrow> bool" where
  "literal_segments fnm parts =
     (\<forall>p\<in>set parts. \<not> is_wildcard p \<longrightarrow> (\<forall>nm. fnm nm p = (nm = p)))"

definition distinct_names :: "node \<Rightarrow> bool" where
  "distinct_names root =
     list_all (\<lambda>n. distinct (map (\<lambda>c. name (attrs c)) (children n))) (subtree_nodes root)"

subsection \<open>Relative paths: \<^verbatim>\<open>file_node\<close> and \<^verbatim>\<open>dir_node\<close>\<close>

text \<open>
  The two constructors compute the relative path with \<^verbatim>\<open>os.path\<close> (POSIX).  The
  functions below follow \<^verbatim>\<open>posixpath.py\<close> of the standard library: \<^verbatim>\<open>isabs\<close>,
  \<^verbatim>\<open>join\<close>, \<^verbatim>\<open>basename\<close>, \<^verbatim>\<open>splitroot\<close>, \<^verbatim>\<open>normpath\<close> (its loop over the components
  is \<open>normpath_comps\<close>), \<^verbatim>\<open>abspath\<close> (the working directory is an argument),
  \<^verbatim>\<open>commonprefix\<close> on two lists of components (the longest common prefix),
  \<^verbatim>\<open>relpath\<close> (which raises \<^verbatim>\<open>ValueError\<close> on an empty path) and \<^verbatim>\<open>splitext\<close>.
\<close>

definition os_path_isabs :: "string \<Rightarrow> bool" where
  "os_path_isabs s = (case s of [] \<Rightarrow> False | c # cs \<Rightarrow> c = CHR ''/'')"

definition os_path_join :: "string \<Rightarrow> string \<Rightarrow> string" where
  "os_path_join a b =
     (if os_path_isabs b then b
      else if a = [] \<or> last a = CHR ''/'' then a @ b
      else a @ ''/'' @ b)"

definition os_path_basename :: "string \<Rightarrow> string" where
  "os_path_basename p = last (split_sep CHR ''/'' p)"

definition splitroot :: "string \<Rightarrow> string \<times> string" where
  "splitroot p =
     (if take 1 p \<noteq> ''/'' then ([], p)
      else if take 1 (drop 1 p) \<noteq> ''/'' \<or> take 1 (drop 2 p) = ''/'' then (''/'', drop 1 p)
      else (take 2 p, drop 2 p))"

fun normpath_comps :: "bool \<Rightarrow> string list \<Rightarrow> string list \<Rightarrow> string list" where
  "normpath_comps rooted [] new_comps = new_comps"
| "normpath_comps rooted (part # comps) new_comps =
     (if part = [] \<or> part = ''.'' then normpath_comps rooted comps new_comps
      else if part \<noteq> ''..'' \<or> (\<not> rooted \<and> new_comps = [])
              \<or> (new_comps \<noteq> [] \<and> last new_comps = ''..'')
           then normpath_comps rooted comps (new_comps @ [part])
      else if new_comps \<noteq> [] then normpath_comps rooted comps (butlast new_comps)
      else normpath_comps rooted comps new_comps)"

definition os_path_normpath :: "string \<Rightarrow> string" where
  "os_path_normpath path =
     (if path = [] then ''.''
      else
        (let (initial_slashes, rest) = splitroot path;
             comps = normpath_comps (initial_slashes \<noteq> []) (split_sep CHR ''/'' rest) [];
             p = initial_slashes @ py_join ''/'' comps
         in if p = [] then ''.'' else p))"

definition os_path_abspath :: "string \<Rightarrow> string \<Rightarrow> string" where
  "os_path_abspath cwd path =
     os_path_normpath (if os_path_isabs path then path else os_path_join cwd path)"

fun commonprefix :: "string list \<Rightarrow> string list \<Rightarrow> string list" where
  "commonprefix (x # xs) (y # ys) = (if x = y then x # commonprefix xs ys else [])"
| "commonprefix xs ys = []"

definition os_path_relpath :: "string \<Rightarrow> string \<Rightarrow> string \<Rightarrow> pyerr + string" where
  "os_path_relpath cwd path start =
     (if path = [] then Inl ValueError
      else
        (let start_list = filter (\<lambda>x. x \<noteq> []) (split_sep CHR ''/'' (os_path_abspath cwd start));
             path_list = filter (\<lambda>x. x \<noteq> []) (split_sep CHR ''/'' (os_path_abspath cwd path));
             i = length (commonprefix start_list path_list);
             rel_list = replicate (length start_list - i) ''..'' @ drop i path_list
         in case rel_list of
              [] \<Rightarrow> Inr ''.''
            | a # p \<Rightarrow> Inr (foldl os_path_join a p)))"

definition path_ext :: "string \<Rightarrow> string" where
  "path_ext p =
     (let parts = split_sep CHR ''.'' (os_path_basename p)
      in if list_ex (\<lambda>w. w \<noteq> []) (butlast parts) then last parts else [])"

text \<open>
  \<^verbatim>\<open>
  def file_node(self, name, path, parent, storagepath):
      if not os.path.exists(path):
          Logger.err('File \"{}\" does not exist'.format(path))
          return None
      path = os.path.abspath(path)
      try:
          st = os.lstat(path)
      except OSError as e:
          Logger.err('OSError: {}'.format(e))
          return None
      md5 = None
      if self.hash:
          md5 = utils.md5sum(path)
      relpath = os.path.join(os.path.basename(storagepath),
                             os.path.relpath(path, start=storagepath))
      n = self._node(name, self.TYPE_FILE, relpath, parent, size=st.st_size, md5=md5)
      if self.arc:
          ext = os.path.splitext(path)[1][1:]
          if ext in self.decomp.get_format():
              names = self.decomp.get_names(path)
              self.list_to_tree(n, names)
      return n
  def dir_node(self, name, path, parent, storagepath):
      path = os.path.abspath(path)
      relpath = os.path.relpath(path, start=storagepath)
      return self._node(name, self.TYPE_DIR, relpath, parent)
  \<close>
  What the constructors read from outside the program is the record \<open>env\<close>: the working
  directory, whether a path exists, the size \<^verbatim>\<open>lstat\<close> reports (\<open>None\<close> for \<^verbatim>\<open>OSError\<close>),
  the digest of \<^verbatim>\<open>utils.md5sum\<close>, and the formats and member lists of \<^verbatim>\<open>Decomp\<close>.
  \<open>file_relpath\<close> and \<open>dir_relpath\<close> are the two expressions for \<^verbatim>\<open>relpath\<close>.  The
  result of a constructor is the tree with the new node attached as the last child of
  the parent, and the location of the new node; \<open>None\<close> stands for \<^verbatim>\<open>return None\<close>.
\<close>

record env =
  cwd :: string
  path_exists :: "string \<Rightarrow> bool"
  lstat_size :: "string \<Rightarrow> int option"
  md5sum :: "string \<Rightarrow> string nullable"
  get_format :: "string list"
  get_names :: "string \<Rightarrow> string list"

definition dir_relpath :: "string \<Rightarrow> string \<Rightarrow> string \<Rightarrow> pyerr + string" where
  "dir_relpath wd path storagepath = os_path_relpath wd (os_path_abspath wd path) storagepath"

definition file_relpath :: "string \<Rightarrow> string \<Rightarrow> string \<Rightarrow> pyerr + string" where
  "file_relpath wd path storagepath =
     (case os_path_relpath wd (os_path_abspath wd path) storagepath of
        Inl e \<Rightarrow> Inl e
      | Inr rel \<Rightarrow> Inr (os_path_join (os_path_basename storagepath) rel))"

definition dir_node ::
    "env \<Rightarrow> node \<Rightarrow> loc \<Rightarrow> string \<Rightarrow> string \<Rightarrow> string \<Rightarrow> pyerr + (node \<times> loc)" where
  "dir_node e root parent nm path storagepath =
     (case node_at root parent of
        None \<Rightarrow> Inl DanglingRef
      | Some p \<Rightarrow>
          (case dir_relpath (cwd e) path storagepath of
             Inl err \<Rightarrow> Inl err
           | Inr rp \<Rightarrow>
               Inr (attach root parent (mk_node nm TYPE_DIR rp PyNone PyNone),
                    parent @ [length (children p)])))"

definition file_node ::
    "env \<Rightarrow> bool \<Rightarrow> bool \<Rightarrow> node \<Rightarrow> loc \<Rightarrow> string \<Rightarrow> string \<Rightarrow> string
       \<Rightarrow> pyerr + (node \<times> loc) option" where
  "file_node e hashing arc root parent nm path storagepath =
     (case node_at root parent of
        None \<Rightarrow> Inl DanglingRef
      | Some p \<Rightarrow>
          if \<not> path_exists e path then Inr None
          else
            (let apath = os_path_abspath (cwd e) path in
             case lstat_size e apath of
               None \<Rightarrow> Inr None
             | Some sz \<Rightarrow>
                 (let h = (if hashing then md5sum e apath else PyNone) in
                  case file_relpath (cwd e) path storagepath of
                    Inl err \<Rightarrow> Inl err
                  | Inr rp \<Rightarrow>
                      (let n_loc = parent @ [length (children p)];
                           root1 = attach root parent (mk_node nm TYPE_FILE rp (Val sz) h)
                       in if arc \<and> path_ext apath \<in> set (get_format e)
                          then (case list_to_tree root1 n_loc (get_names e apath) of
                                  Inl err \<Rightarrow> Inl err
                                | Inr root2 \<Rightarrow> Inr (Some (root2, n_loc)))
                          else Inr (Some (root1, n_loc))))))"

definition abs_path :: "string list \<Rightarrow> string" where
  "abs_path segs = ''/'' @ py_join ''/'' segs"

definition plain_segments :: "string list \<Rightarrow> bool" where
  "plain_segments segs = list_all (\<lambda>s. name_segment s \<and> CHR ''/'' \<notin> set s) segs"

definition ex_env :: env where
  "ex_env = \<lparr>cwd = ''/home/user'',
     path_exists =
       (\<lambda>p. p \<in> set [''/mnt/usb1/music/song.mp3'', ''/mnt/usb1/music'', ''/mnt/usb1/photos.zip'']),
     lstat_size =
       (\<lambda>p. if p = ''/mnt/usb1/music/song.mp3'' then Some 1000
            else if p = ''/mnt/usb1/photos.zip'' then Some 4096 else None),
     md5sum = (\<lambda>p. PyNone),
     get_format = [''zip'', ''tar''],
     get_names = (\<lambda>p. if p = ''/mnt/usb1/photos.zip'' then [''a/b.jpg''] else [])\<rparr>"

section \<open>Facts about the type tags\<close>

lemma type_tags_distinct [simp]:
  "TYPE_TOP \<noteq> TYPE_FILE" "TYPE_TOP \<noteq> TYPE_DIR" "TYPE_TOP \<noteq> TYPE_ARC" "TYPE_TOP \<noteq> TYPE_STORAGE" "TYPE_TOP \<noteq> TYPE_META"
  "TYPE_FILE \<noteq> TYPE_TOP" "TYPE_FILE \<noteq> TYPE_DIR" "TYPE_FILE \<noteq> TYPE_ARC" "TYPE_FILE \<noteq> TYPE_STORAGE" "TYPE_FILE \<noteq> TYPE_META"
  "TYPE_DIR \<noteq> TYPE_TOP" "TYPE_DIR \<noteq> TYPE_FILE" "TYPE_DIR \<noteq> TYPE_ARC" "TYPE_DIR \<noteq> TYPE_STORAGE" "TYPE_DIR \<noteq> TYPE_META"
  "TYPE_ARC \<noteq> TYPE_TOP" "TYPE_ARC \<noteq> TYPE_FILE" "TYPE_ARC \<noteq> TYPE_DIR" "TYPE_ARC \<noteq> TYPE_STORAGE" "TYPE_ARC \<noteq> TYPE_META"
  "TYPE_STORAGE \<noteq> TYPE_TOP" "TYPE_STORAGE \<noteq> TYPE_FILE" "TYPE_STORAGE \<noteq> TYPE_DIR" "TYPE_STORAGE \<noteq> TYPE_ARC" "TYPE_STORAGE \<noteq> TYPE_META"
  "TYPE_META \<noteq> TYPE_TOP" "TYPE_META \<noteq> TYPE_FILE" "TYPE_META \<noteq> TYPE_DIR" "TYPE_META \<noteq> TYPE_ARC" "TYPE_META \<noteq> TYPE_STORAGE"
  by (simp_all add: TYPE_TOP_def TYPE_FILE_def TYPE_DIR_def TYPE_ARC_def
      TYPE_STORAGE_def TYPE_META_def)

section \<open>Aggregation on nodes that are neither directory nor storage\<close>

lemma rec_size_children_skip:
  "ty \<noteq> TYPE_DIR \<Longrightarrow> ty \<noteq> TYPE_STORAGE \<Longrightarrow> rec_size_children ty cs sz = Inr (sz, cs)"
  by (induction cs) simp_all

lemmas ex_defs = ex_catalog_def ex_usb1_def ex_music_def ex_song_def ex_cover_def
  ex_music_aggregated_def ex_usb1_aggregated_def
  add_child_def mk_node_def storage_node_def new_top_node_def blank_def TOPNAME_def

lemmas type_defs = TYPE_TOP_def TYPE_FILE_def TYPE_DIR_def TYPE_ARC_def
  TYPE_STORAGE_def TYPE_META_def

text \<open>
  Claim C10.  Called on the Top node, \<open>rec_size\<close> recurses into no child: the children
  come back as they were (so no directory below receives a size), the Top node's own
  size is set to 0, and 0 is returned.
\<close>

theorem rec_size_top:
  "ntype (attrs n) = TYPE_TOP \<Longrightarrow>
     rec_size n = Inr (Val 0, Node ((attrs n)\<lparr>nsize := Some (Val 0)\<rparr>) (children n))"
  by (cases n) (simp add: rec_size_children_skip)

theorem rec_size_top_witness:
  "ntype (attrs ex_catalog) = TYPE_TOP \<and>
   rec_size ex_catalog = Inr (Val 0, Node ((attrs ex_catalog)\<lparr>nsize := Some (Val 0)\<rparr>) [ex_usb1])"
  using rec_size_top [of ex_catalog]
  by (simp add: ex_catalog_def add_child_def new_top_node_def blank_def)

section \<open>Aggregation is idempotent\<close>

lemma rec_size_idem_aux:
  "(\<forall>v n'. rec_size n = Inr (v, n') \<longrightarrow> rec_size n' = Inr (v, n'))"
  "(\<forall>sz' cs'. rec_size_children ty cs sz = Inr (sz', cs') \<longrightarrow>
      rec_size_children ty cs' sz = Inr (sz', cs'))"
proof (induction n and ty cs sz rule: rec_size_rec_size_children.induct)
  case (1 a cs)
  show ?case
  proof (intro allI impI)
    fix v n' assume r: "rec_size (Node a cs) = Inr (v, n')"
    show "rec_size n' = Inr (v, n')"
    proof (cases "ntype a = TYPE_FILE")
      case True
      with r show ?thesis by (auto split: option.splits)
    next
      case False
      with r obtain sz cs' where l: "rec_size_children (ntype a) cs 0 = Inr (sz, cs')"
        and v: "v = Val sz" and n': "n' = Node (a\<lparr>nsize := Some (Val sz)\<rparr>) cs'"
        by (auto split: sum.splits)
      from "1.IH" False l have "rec_size_children (ntype a) cs' 0 = Inr (sz, cs')" by blast
      with False v n' show ?thesis by simp
    qed
  qed
next
  case (2 ty sz)
  then show ?case by simp
next
  case (3 ty i rest sz)
  show ?case
  proof (intro allI impI)
    fix sz' cs' assume r: "rec_size_children ty (i # rest) sz = Inr (sz', cs')"
    consider (dir) "ty = TYPE_DIR" | (sto) "ty \<noteq> TYPE_DIR" "ty = TYPE_STORAGE"
      | (other) "ty \<noteq> TYPE_DIR" "ty \<noteq> TYPE_STORAGE" by blast
    then show "rec_size_children ty cs' sz = Inr (sz', cs')"
    proof cases
      case dir
      with r obtain k i' rest' where i: "rec_size i = Inr (Val k, i')"
        and l: "rec_size_children ty rest (sz + k) = Inr (sz', rest')" and c: "cs' = i' # rest'"
        by (auto split: sum.splits nullable.splits)
      from "3.IH"(1) dir i have i2: "rec_size i' = Inr (Val k, i')" by blast
      from "3.IH"(2) [OF dir i refl refl] l
      have "rec_size_children ty rest' (sz + k) = Inr (sz', rest')" by blast
      with dir i2 c show ?thesis by simp
    next
      case sto
      with r obtain v i' rest' where i: "rec_size i = Inr (v, i')"
        and l: "rec_size_children ty rest sz = Inr (sz', rest')" and c: "cs' = i' # rest'"
        by (auto split: sum.splits)
      from "3.IH"(3) sto i have i2: "rec_size i' = Inr (v, i')" by blast
      from "3.IH"(4) [OF sto i refl] l
      have "rec_size_children ty rest' sz = Inr (sz', rest')" by blast
      with sto i2 c show ?thesis by simp
    next
      case other
      then show ?thesis using r by (simp add: rec_size_children_skip)
    qed
  qed
qed

lemma ex_usb1_rec_size: "rec_size ex_usb1 = Inr (Val 0, ex_usb1_aggregated)"
  by (simp add: ex_defs type_defs)

text \<open>
  Claim C6.  \<open>rec_size\<close> is idempotent: when a run on a subtree returns \<open>v\<close> and the
  updated subtree \<open>n'\<close>, a second run on \<open>n'\<close> returns \<open>v\<close> again and leaves \<open>n'\<close> as
  it is, so every node keeps the size the first run gave it.
\<close>

theorem rec_size_idempotent:
  "rec_size n = Inr (v, n') \<Longrightarrow> rec_size n' = Inr (v, n')"
  using rec_size_idem_aux(1) by blast

theorem rec_size_idempotent_witness:
  "rec_size ex_usb1 = Inr (Val 0, ex_usb1_aggregated) \<and>
   rec_size ex_usb1_aggregated = Inr (Val 0, ex_usb1_aggregated)"
  using rec_size_idempotent [OF ex_usb1_rec_size] ex_usb1_rec_size by simp

section \<open>Aggregation on a storage node\<close>

lemma rec_size_children_storage:
  "list_all (\<lambda>c. \<not> isl (rec_size c)) cs \<Longrightarrow>
     rec_size_children TYPE_STORAGE cs sz = Inr (sz, map (\<lambda>c. snd (projr (rec_size c))) cs)"
  by (induction cs) (auto split: sum.splits)

lemma rec_size_children_storage_fails:
  "\<not> list_all (\<lambda>c. \<not> isl (rec_size c)) cs \<Longrightarrow> isl (rec_size_children TYPE_STORAGE cs sz)"
  by (induction cs) (auto split: sum.splits)

text \<open>
  Claim C1, as the code has it.  On a storage node \<open>rec_size\<close> aggregates every child
  (when each child's run succeeds; otherwise the storage's run raises too), adds none
  of the children's sizes up, and then assigns the running total, which is still 0,
  to the storage's own size field and returns 0.  The field is therefore set, to 0.
\<close>

theorem rec_size_storage:
  "ntype (attrs n) = TYPE_STORAGE \<Longrightarrow>
     (if list_all (\<lambda>c. \<not> isl (rec_size c)) (children n)
      then rec_size n = Inr (Val 0, Node ((attrs n)\<lparr>nsize := Some (Val 0)\<rparr>)
             (map (\<lambda>c. snd (projr (rec_size c))) (children n)))
      else isl (rec_size n))"
proof (cases n)
  case (Node a cs)
  assume "ntype (attrs n) = TYPE_STORAGE"
  with Node have t: "ntype a = TYPE_STORAGE" by simp
  show ?thesis
  proof (cases "list_all (\<lambda>c. \<not> isl (rec_size c)) cs")
    case True
    with Node t show ?thesis by (simp add: rec_size_children_storage)
  next
    case False
    from rec_size_children_storage_fails [OF False, of 0]
    obtain e where "rec_size_children TYPE_STORAGE cs 0 = Inl e"
      by (cases "rec_size_children TYPE_STORAGE cs 0") auto
    with Node t False show ?thesis by simp
  qed
qed

theorem rec_size_storage_witness:
  "ntype (attrs ex_usb1) = TYPE_STORAGE \<and>
   list_all (\<lambda>c. \<not> isl (rec_size c)) (children ex_usb1) \<and>
   rec_size ex_usb1 = Inr (Val 0, Node ((attrs ex_usb1)\<lparr>nsize := Some (Val 0)\<rparr>)
             (map (\<lambda>c. snd (projr (rec_size c))) (children ex_usb1)))"
  using rec_size_storage [of ex_usb1] by (simp add: ex_defs type_defs)

text \<open>
  The specification's first scenario refutes claim C1 as stated: before the run the
  storage "usb1" has no size attribute; after it the attribute exists and holds 0.
\<close>

theorem rec_size_storage_size_set:
  "nsize (attrs ex_usb1) = None \<and>
   rec_size ex_usb1 = Inr (Val 0, ex_usb1_aggregated) \<and>
   nsize (attrs ex_usb1_aggregated) = Some (Val 0)"
  by (simp add: ex_defs type_defs)

section \<open>Aggregation on a fully built subtree\<close>








lemma file_sum_cong:
  "filter is_file (subtree_nodes n') = filter is_file (subtree_nodes n) \<Longrightarrow> file_sum n' = file_sum n"
  by (simp add: file_sum_def)






section \<open>Sorting siblings\<close>

lemma py_sorted_mset: "mset (py_sorted key r xs) = mset xs"
  by (simp add: py_sorted_def)

lemma py_sorted_stable:
  "filter (\<lambda>x. key x = k) (py_sorted key r xs) = filter (\<lambda>x. key x = k) xs"
  by (simp add: py_sorted_def sort_key_stable flip: rev_filter)

lemma py_sorted_ascending: "sorted (map key (py_sorted key False xs))"
  by (simp add: py_sorted_def)

lemma py_sorted_descending: "sorted (rev (map key (py_sorted key True xs)))"
  by (simp add: py_sorted_def rev_map)

lemma sort_key_rev_distinct:
  assumes "distinct (map key xs)"
  shows "sort_key key (rev xs) = sort_key key xs"
proof -
  have inj: "inj_on key (set xs)" using assms by (simp add: distinct_map)
  have d1: "distinct (map key (sort_key key (rev xs)))"
    using assms by (simp add: distinct_map inj)
  have d2: "distinct (map key (sort_key key xs))"
    using assms by (simp add: distinct_map inj)
  have "map key (sort_key key (rev xs)) = map key (sort_key key xs)"
    by (rule sorted_distinct_set_unique) (simp_all add: d1 d2)
  moreover have "inj_on key (set (sort_key key (rev xs)) \<union> set (sort_key key xs))"
    using inj by simp
  ultimately show ?thesis by (simp add: inj_on_map_eq_map)
qed

lemma py_sorted_reverse_distinct:
  "distinct (map key xs) \<Longrightarrow> py_sorted key True xs = rev (py_sorted key False xs)"
  by (simp add: py_sorted_def sort_key_rev_distinct)

lemmas sort_defs = sort_tree_def py_sorted_def sort_size_def sort_fs_def lower_ascii_def
  py_lstrip_def ascii_lower_def ex_track_def

text \<open>
  Claim C7, as the code has it.  \<open>sort_tree\<close> returns a permutation of the siblings under
  either policy.  Both policies are stable: siblings with equal keys keep their
  insertion order.  The name policy always sorts ascending and the size policy always
  descending (the flag that selects the key is the \<^verbatim>\<open>reverse\<close> argument).  A descending
  sort is the reverse of the ascending sort by the same key when no two siblings share
  a key.
\<close>

theorem sort_tree_properties:
  "mset (sort_tree lower sortsize items) = mset items \<and>
   filter (\<lambda>n. sort_size n = k) (sort_tree lower True items) = filter (\<lambda>n. sort_size n = k) items \<and>
   filter (\<lambda>n. sort_fs lower n = kf) (sort_tree lower False items) = filter (\<lambda>n. sort_fs lower n = kf) items \<and>
   sorted (map (sort_fs lower) (sort_tree lower False items)) \<and>
   sorted (rev (map sort_size (sort_tree lower True items))) \<and>
   (distinct (map sort_size items) \<longrightarrow>
      sort_tree lower True items = rev (py_sorted sort_size False items)) \<and>
   (distinct (map (sort_fs lower) items) \<longrightarrow>
      py_sorted (sort_fs lower) True items = rev (sort_tree lower False items))"
  by (simp add: sort_tree_def py_sorted_mset py_sorted_stable py_sorted_ascending
      py_sorted_descending py_sorted_reverse_distinct)

theorem sort_tree_properties_witness:
  "distinct (map sort_size [ex_cover, ex_song]) \<and>
   distinct (map (sort_fs lower_ascii) [ex_song, ex_cover, ex_music]) \<and>
   sort_tree lower_ascii True [ex_cover, ex_song] = rev (py_sorted sort_size False [ex_cover, ex_song]) \<and>
   rev (py_sorted sort_size False [ex_cover, ex_song]) = [ex_song, ex_cover] \<and>
   py_sorted (sort_fs lower_ascii) True [ex_song, ex_cover, ex_music] = rev (sort_tree lower_ascii False [ex_song, ex_cover, ex_music]) \<and>
   sort_tree lower_ascii False [ex_song, ex_cover, ex_music] = [ex_music, ex_cover, ex_song]"
proof -
  have d1: "distinct (map sort_size [ex_cover, ex_song])"
    by (simp add: sort_defs ex_defs)
  have d2: "distinct (map (sort_fs lower_ascii) [ex_song, ex_cover, ex_music])"
    by (simp add: sort_defs ex_defs type_defs)
  from d1 sort_tree_properties [of lower_ascii True "[ex_cover, ex_song]" 0 "([], [])"]
  have e1: "sort_tree lower_ascii True [ex_cover, ex_song] = rev (py_sorted sort_size False [ex_cover, ex_song])"
    by blast
  from d2 sort_tree_properties [of lower_ascii False "[ex_song, ex_cover, ex_music]" 0 "([], [])"]
  have e2: "py_sorted (sort_fs lower_ascii) True [ex_song, ex_cover, ex_music]
      = rev (sort_tree lower_ascii False [ex_song, ex_cover, ex_music])"
    by blast
  have v1: "rev (py_sorted sort_size False [ex_cover, ex_song]) = [ex_song, ex_cover]"
    by (simp add: sort_defs ex_defs)
  have v2: "sort_tree lower_ascii False [ex_song, ex_cover, ex_music] = [ex_music, ex_cover, ex_song]"
    by (simp add: sort_defs ex_defs type_defs)
  from d1 d2 e1 e2 v1 v2 show ?thesis by blast
qed

text \<open>
  Two files of the same size refute claim C7 as stated: the size policy (descending)
  keeps them in insertion order, which is not the reverse of the ascending order.
\<close>

theorem sort_tree_ties_not_reversed:
  "sort_size ex_song = sort_size ex_track \<and>
   sort_tree lower_ascii True [ex_song, ex_track] = [ex_song, ex_track] \<and>
   rev (py_sorted sort_size False [ex_song, ex_track]) = [ex_track, ex_song]"
  by (simp add: sort_defs ex_defs)

section \<open>Search\<close>

lemmas find_defs = find_name_def findall_def find_name_cb_def print_node_def need_def
  get_storage_def lower_ascii_def ascii_lower_def

lemma map_snd_preorder_depth: "map snd (preorder_depth d n) = subtree_nodes n"
proof (induction n arbitrary: d)
  case (Node a cs)
  have "map (map snd \<circ> preorder_depth (Suc d)) cs = map subtree_nodes cs"
    using Node.IH by simp
  then have "concat (map (map snd \<circ> preorder_depth (Suc d)) cs) = concat (map subtree_nodes cs)"
    by (rule arg_cong)
  then show ?case by (simp add: map_concat)
qed

lemma find_name_returns_all_matches:
  "find_name lower arc root key = Inr (paths, found) \<Longrightarrow>
     found = filter (find_name_cb lower key) (subtree_nodes root)"
proof -
  have "map snd (filter (\<lambda>(d, n). P n) xs) = filter P (map snd xs)" for P and xs :: "(nat \<times> node) list"
    by (induction xs) auto
  then show "find_name lower arc root key = Inr (paths, found) \<Longrightarrow>
     found = filter (find_name_cb lower key) (subtree_nodes root)"
    by (auto simp: find_name_def findall_def Let_def map_snd_preorder_depth split: sum.splits)
qed

text \<open>
  Claim C2 fails on the code.  On the specification's example catalog the search term
  "usb" matches the storage "usb1": the loop skips it (no path is reported), but the
  list that \<open>find_name\<close> returns is the unfiltered \<^verbatim>\<open>found\<close> and contains the storage.
\<close>

theorem find_name_returns_storage:
  "find_name lower_ascii False ex_catalog ''usb'' = Inr ([], [ex_usb1]) \<and>
   ntype (attrs ex_usb1) = TYPE_STORAGE"
  by (simp add: find_defs ex_defs type_defs)

section \<open>Exact resolution\<close>

lemma find_child_bound: "find_child nm cs = Some i \<Longrightarrow> i < length cs"
  by (induction cs arbitrary: i) (auto split: if_splits)

lemma find_child_find:
  "find (\<lambda>c. name (attrs c) = nm) cs = map_option (\<lambda>i. cs ! i) (find_child nm cs)"
  by (induction cs) (auto simp: option.map_comp comp_def)

lemma node_at_append:
  "node_at root (l @ m) = (case node_at root l of None \<Rightarrow> None | Some n \<Rightarrow> node_at n m)"
  by (induction root l rule: node_at.induct) auto

lemma node_at_snoc:
  "node_at root l = Some n \<Longrightarrow> i < length (children n) \<Longrightarrow>
     node_at root (l @ [i]) = Some (children n ! i)"
  by (simp add: node_at_append)

lemma resolver_get_parts_names:
  "list_all name_segment parts \<Longrightarrow> node_at root l = Some n \<Longrightarrow>
     (case walk_names n parts of
        None \<Rightarrow> resolver_get_parts root (Some l) parts = Inl ChildResolverError
      | Some m \<Rightarrow> \<exists>l'. resolver_get_parts root (Some l) parts = Inr (Some l') \<and>
                    node_at root l' = Some m)"
proof (induction parts arbitrary: l n)
  case Nil
  then show ?case by simp
next
  case (Cons p ps)
  from Cons.prems(1) have ps: "list_all name_segment ps" and "name_segment p" by simp_all
  then have p: "p \<noteq> ''..''" "p \<noteq> []" "p \<noteq> ''.''"
    by (simp_all add: name_segment_def)
  show ?case
  proof (cases "find_child p (children n)")
    case None
    then have "find (\<lambda>c. name (attrs c) = p) (children n) = None"
      by (simp add: find_child_find)
    then have w: "walk_names n (p # ps) = None" by simp
    have "resolver_get_parts root (Some l) (p # ps) = Inl ChildResolverError"
      using None p Cons.prems(2) by simp
    with w show ?thesis by simp
  next
    case (Some i)
    then have i: "i < length (children n)" by (rule find_child_bound)
    from Some have f: "find (\<lambda>c. name (attrs c) = p) (children n) = Some (children n ! i)"
      by (simp add: find_child_find)
    have at: "node_at root (l @ [i]) = Some (children n ! i)"
      using Cons.prems(2) i by (rule node_at_snoc)
    have step: "resolver_get_parts root (Some l) (p # ps)
        = resolver_get_parts root (Some (l @ [i])) ps"
      using Some p Cons.prems(2) by simp
    have w: "walk_names n (p # ps) = walk_names (children n ! i) ps"
      using f by simp
    from Cons.IH [OF ps at] show ?thesis unfolding step w .
  qed
qed

lemma split_sep_nonempty: "split_sep sep s \<noteq> []"
  by (induction s) (auto split: list.splits)

lemma split_sep_leading: "split_sep sep (sep # cs) = [] # split_sep sep cs"
  by simp

lemma resolver_start_names:
  "list_all name_segment (split_sep separator path) \<Longrightarrow>
     resolver_start root cur path = Inr (cur, split_sep separator path)"
  by (cases path) (auto simp: resolver_start_def name_segment_def)

lemma walk_names_append:
  "walk_names n (pre @ post) = (case walk_names n pre of None \<Rightarrow> None | Some m \<Rightarrow> walk_names m post)"
  by (induction pre arbitrary: n) (auto split: option.splits)

lemma walk_names_fails:
  "walk_names n segs = None \<Longrightarrow>
     \<exists>pre s post m. segs = pre @ s # post \<and> walk_names n pre = Some m \<and>
        find (\<lambda>c. name (attrs c) = s) (children m) = None"
proof (induction segs arbitrary: n)
  case Nil
  then show ?case by simp
next
  case (Cons s ss)
  show ?case
  proof (cases "find (\<lambda>c. name (attrs c) = s) (children n)")
    case None
    then have "s # ss = [] @ s # ss \<and> walk_names n [] = Some n \<and>
        find (\<lambda>c. name (attrs c) = s) (children n) = None" by simp
    then show ?thesis by blast
  next
    case (Some c)
    with Cons.prems have "walk_names c ss = None" by simp
    from Cons.IH [OF this] obtain pre s' post m where
      "ss = pre @ s' # post" "walk_names c pre = Some m"
      "find (\<lambda>c. name (attrs c) = s') (children m) = None" by blast
    with Some have "s # ss = (s # pre) @ s' # post \<and> walk_names n (s # pre) = Some m \<and>
        find (\<lambda>c. name (attrs c) = s') (children m) = None" by simp
    then show ?thesis by blast
  qed
qed

lemmas resolver_defs = get_node_def resolver_get_def resolver_start_def separator_def
  name_segment_def

text \<open>
  Claim C9.  For a root, a node \<open>t\<close> of its tree and a slash-delimited path of name
  segments (no segment empty, \<^verbatim>\<open>.\<close> or \<^verbatim>\<open>..\<close>), \<open>get_node\<close> raises nothing and
  agrees with the segment-by-segment walk \<open>walk_names\<close>: when every segment matches
  a child by exact name it returns the node reached, and otherwise it returns no node
  (after logging), the walk having stopped at the first segment that no child of the
  node reached so far is named by.
\<close>

theorem get_node_exact:
  assumes "node_at root top_loc = Some t"
    and "list_all name_segment (split_sep separator path)"
  shows "(case walk_names t (split_sep separator path) of
            Some m \<Rightarrow> \<exists>l. get_node root top_loc path = Inr (Some l) \<and> node_at root l = Some m
          | None \<Rightarrow> get_node root top_loc path = Inr None \<and>
              (\<exists>pre s post m. split_sep separator path = pre @ s # post \<and>
                 walk_names t pre = Some m \<and>
                 find (\<lambda>c. name (attrs c) = s) (children m) = None))"
proof -
  let ?segs = "split_sep separator path"
  have g: "resolver_get root top_loc path = resolver_get_parts root (Some top_loc) ?segs"
    using assms(2) by (simp add: resolver_get_def resolver_start_names)
  show ?thesis
  proof (cases "walk_names t ?segs")
    case None
    with resolver_get_parts_names [OF assms(2) assms(1)] g
    have "get_node root top_loc path = Inr None" by (simp add: get_node_def)
    with None walk_names_fails [OF None] show ?thesis by simp
  next
    case (Some m)
    with resolver_get_parts_names [OF assms(2) assms(1)] g
    show ?thesis by (auto simp: get_node_def)
  qed
qed

theorem get_node_exact_witness:
  "node_at ex_catalog [] = Some ex_catalog \<and>
   list_all name_segment (split_sep separator ''usb1/music/missing.txt'') \<and>
   walk_names ex_catalog (split_sep separator ''usb1/music/missing.txt'') = None \<and>
   get_node ex_catalog [] ''usb1/music/missing.txt'' = Inr None \<and>
   list_all name_segment (split_sep separator ''usb1/music/song.mp3'') \<and>
   walk_names ex_catalog (split_sep separator ''usb1/music/song.mp3'') = Some ex_song \<and>
   get_node ex_catalog [] ''usb1/music/song.mp3'' = Inr (Some [0, 0, 0]) \<and>
   node_at ex_catalog [0, 0, 0] = Some ex_song"
proof -
  have a: "node_at ex_catalog [] = Some ex_catalog" by simp
  have b: "list_all name_segment (split_sep separator ''usb1/music/missing.txt'')"
    by (simp add: separator_def name_segment_def)
  have c: "walk_names ex_catalog (split_sep separator ''usb1/music/missing.txt'') = None"
    by (simp add: separator_def ex_defs)
  from get_node_exact [OF a b] c
  have d: "get_node ex_catalog [] ''usb1/music/missing.txt'' = Inr None" by simp
  have e: "list_all name_segment (split_sep separator ''usb1/music/song.mp3'')"
    by (simp add: separator_def name_segment_def)
  have f: "walk_names ex_catalog (split_sep separator ''usb1/music/song.mp3'') = Some ex_song"
    by (simp add: separator_def ex_defs)
  have g: "get_node ex_catalog [] ''usb1/music/song.mp3'' = Inr (Some [0, 0, 0])"
    by (simp add: resolver_defs ex_defs)
  have h: "node_at ex_catalog [0, 0, 0] = Some ex_song"
    by (simp add: ex_defs)
  from a b c d e f g h show ?thesis by blast
qed

section \<open>Archive members\<close>

lemmas zip_defs = ex_zip_catalog_def ex_photos_def ex_photos_listed_def archive_node_def
  add_entry_def os_sep_def py_rstrip_def

lemma node_at_attach:
  "node_at root l = Some t \<Longrightarrow> node_at (attach root l c) l = Some (add_child t c)"
  by (induction root l arbitrary: t rule: node_at.induct) (auto split: if_splits)

lemma split_sep_no_sep: "x \<in> set (split_sep sep s) \<Longrightarrow> sep \<notin> set x"
  by (induction s arbitrary: x) (auto split: if_splits list.splits)

lemma split_sep_append_plain:
  "sep \<notin> set x \<Longrightarrow> split_sep sep (x @ sep # s) = x # split_sep sep s"
  by (induction x) (auto split: list.splits)

lemma split_sep_plain: "sep \<notin> set x \<Longrightarrow> split_sep sep x = [x]"
  by (induction x) (auto split: list.splits)

lemma split_sep_join:
  "xs \<noteq> [] \<Longrightarrow> \<forall>x\<in>set xs. sep \<notin> set x \<Longrightarrow> split_sep sep (py_join [sep] xs) = xs"
  by (induction "[sep]" xs rule: py_join.induct)
     (simp_all add: split_sep_plain split_sep_append_plain)


text \<open>
  Claim C3, as the code has it.  For a member path with two or more segments whose
  parent segments are names (none empty, \<^verbatim>\<open>.\<close> or \<^verbatim>\<open>..\<close>) and do not resolve under
  the archive file node \<open>t\<close>, \<open>add_entry\<close> raises nothing and attaches one archive
  node directly under \<open>t\<close>, as its last child: the node is named by the last segment
  of the path, and the member's full path is its relative path.
\<close>

theorem add_entry_flat_fallback:
  assumes "node_at root top_loc = Some t"
    and "entries = split_sep os_sep (py_rstrip [os_sep] nm)"
    and "2 \<le> length entries"
    and "list_all name_segment (butlast entries)"
    and "walk_names t (butlast entries) = None"
  shows "add_entry root top_loc nm =
           Inr (attach root top_loc (archive_node (last entries) nm (name (attrs t)))) \<and>
         node_at (attach root top_loc (archive_node (last entries) nm (name (attrs t)))) top_loc =
           Some (add_child t (archive_node (last entries) nm (name (attrs t))))"
proof -
  let ?sub = "py_join [os_sep] (butlast entries)"
  have ne: "butlast entries \<noteq> []" using assms(3) by (cases entries) (auto simp: Suc_le_eq)
  have "\<forall>x\<in>set entries. os_sep \<notin> set x"
    using assms(2) split_sep_no_sep by blast
  then have "\<forall>x\<in>set (butlast entries). os_sep \<notin> set x"
    by (meson in_set_butlastD)
  with ne have sp: "split_sep separator ?sub = butlast entries"
    using split_sep_join [of "butlast entries" os_sep] by (simp add: separator_def os_sep_def)
  have "resolver_get root top_loc ?sub = resolver_get_parts root (Some top_loc) (butlast entries)"
    using assms(4) sp by (simp add: resolver_get_def resolver_start_names)
  also have "\<dots> = Inl ChildResolverError"
    using resolver_get_parts_names [OF assms(4) assms(1)] assms(5) by simp
  finally have r: "resolver_get root top_loc ?sub = Inl ChildResolverError" .
  have l: "length entries \<noteq> 1" using assms(3) by simp
  have "add_entry root top_loc nm =
           Inr (attach root top_loc (archive_node (last entries) nm (name (attrs t))))"
    using assms(1) l r by (simp add: add_entry_def Let_def flip: assms(2))
  with node_at_attach [OF assms(1)] show ?thesis by simp
qed

theorem add_entry_flat_fallback_witness:
  "node_at ex_zip_catalog [0, 0] = Some ex_photos \<and>
   split_sep os_sep (py_rstrip [os_sep] ''a/b.jpg'') = [''a'', ''b.jpg''] \<and>
   list_all name_segment [''a''] \<and>
   walk_names ex_photos [''a''] = None \<and>
   add_entry ex_zip_catalog [0, 0] ''a/b.jpg'' =
     Inr (attach ex_zip_catalog [0, 0] (archive_node ''b.jpg'' ''a/b.jpg'' ''photos.zip'')) \<and>
   node_at (attach ex_zip_catalog [0, 0] (archive_node ''b.jpg'' ''a/b.jpg'' ''photos.zip'')) [0, 0] =
     Some ex_photos_listed"
proof -
  have a: "node_at ex_zip_catalog [0, 0] = Some ex_photos"
    by (simp add: ex_zip_catalog_def add_child_def new_top_node_def storage_node_def)
  have b: "split_sep os_sep (py_rstrip [os_sep] ''a/b.jpg'') = [''a'', ''b.jpg'']"
    by (simp add: os_sep_def py_rstrip_def)
  have c: "list_all name_segment [''a'']" by (simp add: name_segment_def)
  have d: "walk_names ex_photos [''a''] = None" by (simp add: ex_photos_def mk_node_def)
  have n: "name (attrs ex_photos) = ''photos.zip''" by (simp add: ex_photos_def mk_node_def blank_def)
  from add_entry_flat_fallback [OF a b [symmetric]] c d n
  have "add_entry ex_zip_catalog [0, 0] ''a/b.jpg'' =
     Inr (attach ex_zip_catalog [0, 0] (archive_node ''b.jpg'' ''a/b.jpg'' ''photos.zip'')) \<and>
   node_at (attach ex_zip_catalog [0, 0] (archive_node ''b.jpg'' ''a/b.jpg'' ''photos.zip'')) [0, 0] =
     Some ex_photos_listed"
    by (simp add: ex_photos_listed_def)
  with a b c d show ?thesis by blast
qed

text \<open>
  The specification's third scenario refutes claim C3 as stated: for the member
  "a/b.jpg" the child attached under "photos.zip" is named "b.jpg", not "a/b.jpg";
  the full path is the child's relative path.
\<close>

theorem list_to_tree_member_name:
  "list_to_tree ex_zip_catalog [0, 0] [''a/b.jpg''] =
     Inr (attach ex_zip_catalog [0, 0] (archive_node ''b.jpg'' ''a/b.jpg'' ''photos.zip'')) \<and>
   node_at (attach ex_zip_catalog [0, 0] (archive_node ''b.jpg'' ''a/b.jpg'' ''photos.zip'')) [0, 0] =
     Some ex_photos_listed \<and>
   map (\<lambda>c. (name (attrs c), relpath (attrs c))) (children ex_photos_listed) =
     [(''b.jpg'', Some ''a/b.jpg'')]"
  by (simp add: zip_defs resolver_get_def resolver_start_def separator_def add_child_def
      mk_node_def storage_node_def new_top_node_def blank_def Let_def)

section \<open>Glob resolution\<close>

lemma match_paths_Cons:
  "match_paths fnm n (p # ps) = match_children fnm p ps (enumerate 0 (children n))"
  by (simp add: match_children_def)

lemma match_children_Nil: "match_children fnm p ps [] = []"
  by (simp add: match_children_def)

lemma match_children_Cons:
  "match_children fnm p ps ((i, c) # ics) =
     (if fnm (name (attrs c)) p then map (\<lambda>(l, m). (i # l, m)) (match_paths fnm c ps) else [])
     @ match_children fnm p ps ics"
  by (simp add: match_children_def)

lemma match_children_none:
  "\<forall>(i, c)\<in>set ics. \<not> fnm (name (attrs c)) p \<Longrightarrow> match_children fnm p ps ics = []"
  by (induction ics) (auto simp: match_children_def)

lemma found_under_simps:
  "found_under l [] = []"
  "found_under l (xs @ ys) = found_under l xs @ found_under l ys"
  "found_under l (map (\<lambda>(q, m). (i # q, m)) xs) = found_under (l @ [i]) xs"
  "found_under l [([], c)] = [(l, c)]"
  by (simp_all add: found_under_def case_prod_unfold comp_def)

lemma found_under_empty: "found_under l xs = [] \<longleftrightarrow> xs = []"
  by (simp add: found_under_def)

lemma drop_head:
  assumes "drop k xs = y # ys"
  shows "k < length xs" "xs ! k = y" "drop (Suc k) xs = ys"
proof -
  show k: "k < length xs" using assms by (cases "k < length xs") auto
  from assms show "xs ! k = y" by (metis nth_via_drop)
  from assms show "drop (Suc k) xs = ys" by (metis drop_Suc tl_drop list.sel(3))
qed


lemma enumerate_snd_in: "(i, c) \<in> set (enumerate k cs) \<Longrightarrow> c \<in> set cs"
  by (auto simp: in_set_enumerate_eq)

lemma resolver_find_correct:
  assumes H: "ps \<noteq> [] \<Longrightarrow> (\<And>l n. node_at root l = Some n \<Longrightarrow>
              resolver_glob_parts fnm root (Some l) ps = Inr (found_under l (match_paths fnm n ps)) \<or>
              (resolver_glob_parts fnm root (Some l) ps = Inl ChildResolverError \<and>
               match_paths fnm n ps = []))"
    and at: "node_at root l = Some n"
    and lit: "\<not> is_wildcard p \<Longrightarrow> (\<forall>nm. fnm nm p = (nm = p))"
  shows "drop k (children n) = cs \<Longrightarrow> distinct (map (\<lambda>c. name (attrs c)) cs) \<Longrightarrow>
     resolver_find fnm root l (enumerate k cs) p ps =
         Inr (found_under l (match_children fnm p ps (enumerate k cs))) \<or>
     (resolver_find fnm root l (enumerate k cs) p ps = Inl ChildResolverError \<and>
        \<not> is_wildcard p \<and> match_children fnm p ps (enumerate k cs) = [] \<and>
        (\<exists>c\<in>set cs. fnm (name (attrs c)) p))"
proof (induction cs arbitrary: k)
  case Nil
  then show ?case by (simp add: match_children_Nil found_under_simps)
next
  case (Cons c rest)
  let ?rest = "enumerate (Suc k) rest"
  from drop_head [OF Cons.prems(1)]
  have k: "k < length (children n)" and ck: "children n ! k = c"
    and dr: "drop (Suc k) (children n) = rest" by simp_all
  have atc: "node_at root (l @ [k]) = Some c"
    using node_at_snoc [OF at k] ck by simp
  from Cons.prems(2) have dist: "distinct (map (\<lambda>c. name (attrs c)) rest)"
    and notin: "name (attrs c) \<notin> set (map (\<lambda>c. name (attrs c)) rest)" by simp_all
  note R = Cons.IH [OF dr dist]
  have en: "enumerate k (c # rest) = (k, c) # ?rest" by simp
  have only: "\<forall>c'\<in>set rest. \<not> fnm (name (attrs c')) p"
    if "\<not> is_wildcard p" "fnm (name (attrs c)) p"
  proof
    fix c' assume c': "c' \<in> set rest"
    from lit [OF that(1)] that(2) have "name (attrs c) = p" by simp
    with notin c' have "name (attrs c') \<noteq> p" by (auto simp: image_iff)
    with lit [OF that(1)] show "\<not> fnm (name (attrs c')) p" by simp
  qed
  have rest_empty: "match_children fnm p ps ?rest = []"
    if "\<not> is_wildcard p" "fnm (name (attrs c)) p"
    using only [OF that] by (intro match_children_none) (auto dest: enumerate_snd_in)
  have rest_ok: "resolver_find fnm root l ?rest p ps =
         Inr (found_under l (match_children fnm p ps ?rest))"
    if "fnm (name (attrs c)) p"
  proof (cases "is_wildcard p")
    case True
    with R show ?thesis by blast
  next
    case False
    from only [OF False that] R show ?thesis by blast
  qed
  show ?case
  proof (cases "fnm (name (attrs c)) p")
    case False
    then have "resolver_find fnm root l (enumerate k (c # rest)) p ps
        = resolver_find fnm root l ?rest p ps"
      and "match_children fnm p ps (enumerate k (c # rest)) = match_children fnm p ps ?rest"
      by (simp_all add: match_children_Cons)
    with R show ?thesis by auto
  next
    case True
    show ?thesis
    proof (cases "ps = []")
      case e: True
      have "resolver_find fnm root l (enumerate k (c # rest)) p ps
          = Inr ((l @ [k], c) # found_under l (match_children fnm p ps ?rest))"
        using True e rest_ok [OF True] by simp
      moreover have "found_under l (match_children fnm p ps (enumerate k (c # rest)))
          = (l @ [k], c) # found_under l (match_children fnm p ps ?rest)"
        using True e by (simp add: match_children_Cons found_under_def)
      ultimately show ?thesis by simp
    next
      case ne: False
      from H [OF ne atc] show ?thesis
      proof
        assume g: "resolver_glob_parts fnm root (Some (l @ [k])) ps
            = Inr (found_under (l @ [k]) (match_paths fnm c ps))"
        have "resolver_find fnm root l (enumerate k (c # rest)) p ps
            = Inr (found_under (l @ [k]) (match_paths fnm c ps)
                   @ found_under l (match_children fnm p ps ?rest))"
          using True ne g rest_ok [OF True] by simp
        moreover have "found_under l (match_children fnm p ps (enumerate k (c # rest)))
            = found_under (l @ [k]) (match_paths fnm c ps)
              @ found_under l (match_children fnm p ps ?rest)"
          using True by (simp add: match_children_Cons found_under_simps)
        ultimately show ?thesis by simp
      next
        assume g: "resolver_glob_parts fnm root (Some (l @ [k])) ps = Inl ChildResolverError \<and>
            match_paths fnm c ps = []"
        have mc: "match_children fnm p ps (enumerate k (c # rest)) = match_children fnm p ps ?rest"
          using g by (simp add: match_children_Cons)
        show ?thesis
        proof (cases "is_wildcard p")
          case w: True
          have "resolver_find fnm root l (enumerate k (c # rest)) p ps
              = resolver_find fnm root l ?rest p ps"
            using True ne g w by (simp add: is_resolver_error_def)
          with rest_ok [OF True] mc show ?thesis by simp
        next
          case nw: False
          have "resolver_find fnm root l (enumerate k (c # rest)) p ps = Inl ChildResolverError"
            using True ne g nw by simp
          moreover have "match_children fnm p ps (enumerate k (c # rest)) = []"
            using mc rest_empty [OF nw True] by simp
          ultimately show ?thesis using nw True by auto
        qed
      qed
    qed
  qed
qed


lemma resolver_glob_parts_correct:
  assumes dn: "\<And>l n. node_at root l = Some n \<Longrightarrow> distinct (map (\<lambda>c. name (attrs c)) (children n))"
  shows "literal_segments fnm parts \<Longrightarrow> list_all name_segment parts \<Longrightarrow> parts \<noteq> [] \<Longrightarrow>
     node_at root l = Some n \<Longrightarrow>
     resolver_glob_parts fnm root (Some l) parts = Inr (found_under l (match_paths fnm n parts)) \<or>
     (resolver_glob_parts fnm root (Some l) parts = Inl ChildResolverError \<and>
      match_paths fnm n parts = [])"
proof (induction parts arbitrary: l n)
  case Nil
  then show ?case by simp
next
  case (Cons p ps)
  from Cons.prems(2) have seg: "name_segment p" and segs: "list_all name_segment ps" by simp_all
  then have p: "p \<noteq> ''..''" "p \<noteq> []" "p \<noteq> ''.''" by (simp_all add: name_segment_def)
  from Cons.prems(1) have lits: "literal_segments fnm ps"
    and lit: "\<not> is_wildcard p \<Longrightarrow> (\<forall>nm. fnm nm p = (nm = p))"
    by (simp_all add: literal_segments_def)
  have H: "ps \<noteq> [] \<Longrightarrow> (\<And>l n. node_at root l = Some n \<Longrightarrow>
              resolver_glob_parts fnm root (Some l) ps = Inr (found_under l (match_paths fnm n ps)) \<or>
              (resolver_glob_parts fnm root (Some l) ps = Inl ChildResolverError \<and>
               match_paths fnm n ps = []))"
    using Cons.IH [OF lits segs] by blast
  let ?ics = "enumerate 0 (children n)"
  have d: "distinct (map (\<lambda>c. name (attrs c)) (children n))"
    using dn [OF Cons.prems(4)] .
  have F: "resolver_find fnm root l ?ics p ps =
         Inr (found_under l (match_children fnm p ps ?ics)) \<or>
     (resolver_find fnm root l ?ics p ps = Inl ChildResolverError \<and>
        \<not> is_wildcard p \<and> match_children fnm p ps ?ics = [] \<and>
        (\<exists>c\<in>set (children n). fnm (name (attrs c)) p))"
    by (rule resolver_find_correct [OF H Cons.prems(4) lit, of 0 "children n"]) (simp_all add: d)
  have step: "resolver_glob_parts fnm root (Some l) (p # ps) =
      (case resolver_find fnm root l ?ics p ps of
         Inl e \<Rightarrow> Inl e
       | Inr matches \<Rightarrow>
           if matches = [] \<and> \<not> is_wildcard p then Inl ChildResolverError else Inr matches)"
    using p Cons.prems(4) by simp
  have mp: "match_paths fnm n (p # ps) = match_children fnm p ps ?ics"
    by (rule match_paths_Cons)
  from F show ?case
  proof
    assume f: "resolver_find fnm root l ?ics p ps =
         Inr (found_under l (match_children fnm p ps ?ics))"
    show ?thesis
    proof (cases "match_children fnm p ps ?ics = [] \<and> \<not> is_wildcard p")
      case True
      then have "resolver_glob_parts fnm root (Some l) (p # ps) = Inl ChildResolverError"
        unfolding step f by (simp add: found_under_simps)
      with True show ?thesis unfolding mp by simp
    next
      case False
      then have "resolver_glob_parts fnm root (Some l) (p # ps) =
          Inr (found_under l (match_children fnm p ps ?ics))"
        unfolding step f by (auto simp: found_under_empty)
      then show ?thesis unfolding mp by simp
    qed
  next
    assume a: "resolver_find fnm root l ?ics p ps = Inl ChildResolverError \<and>
        \<not> is_wildcard p \<and> match_children fnm p ps ?ics = [] \<and>
        (\<exists>c\<in>set (children n). fnm (name (attrs c)) p)"
    then have "resolver_glob_parts fnm root (Some l) (p # ps) = Inl ChildResolverError"
      unfolding step by simp
    with a show ?thesis unfolding mp by simp
  qed
qed

lemma subtree_nodes_self: "n \<in> set (subtree_nodes n)"
  by (cases n) simp

lemma node_at_in_subtree: "node_at root l = Some n \<Longrightarrow> n \<in> set (subtree_nodes root)"
proof (induction root l rule: node_at.induct)
  case (1 r)
  then show ?case by (simp add: subtree_nodes_self)
next
  case (2 r i l)
  then have i: "i < length (children r)" and at: "node_at (children r ! i) l = Some n"
    by (simp_all split: if_splits)
  from "2.IH" [OF i at] have "n \<in> set (subtree_nodes (children r ! i))" .
  moreover from i have "children r ! i \<in> set (children r)" by simp
  ultimately show ?case by (cases r) auto
qed

lemma subtree_nodes_trans:
  "m \<in> set (subtree_nodes n) \<Longrightarrow> n \<in> set (subtree_nodes root) \<Longrightarrow> m \<in> set (subtree_nodes root)"
proof (induction root)
  case (Node a cs)
  show ?case
  proof (cases "n = Node a cs")
    case True
    with Node.prems show ?thesis by simp
  next
    case False
    with Node.prems(2) obtain c where "c \<in> set cs" "n \<in> set (subtree_nodes c)" by auto
    with Node.IH Node.prems(1) show ?thesis by auto
  qed
qed

lemma render_order_subset: "set (render_order lower sortsize n) \<subseteq> set (subtree_nodes n)"
proof (induction lower sortsize n rule: render_order.induct)
  case (1 lower sortsize a cs)
  have s: "set (sort_tree lower sortsize cs) = set cs"
    by (simp add: sort_tree_def py_sorted_def)
  show ?case using "1.IH" s by auto
qed

lemma print_node_depth:
  "print_node arc False False d n = print_node arc False False 0 n"
  by (simp add: print_node_def)

lemma print_all_printable:
  "\<forall>n\<in>set ns. printable arc n \<Longrightarrow> print_all arc d ns = None"
proof (induction ns)
  case Nil
  then show ?case by simp
next
  case (Cons n ns)
  then have "print_node arc False False d n = None"
    using print_node_depth [of arc d n] by (simp add: printable_def)
  with Cons show ?case by simp
qed

lemma match_paths_valid:
  "(q, m) \<in> set (match_paths fnm n ps) \<Longrightarrow> node_at n q = Some m \<and> length q = length ps"
proof (induction ps arbitrary: n q)
  case Nil
  then show ?case by simp
next
  case (Cons p ps)
  from Cons.prems obtain i c q' where ic: "(i, c) \<in> set (enumerate 0 (children n))"
    and q: "q = i # q'" and m: "(q', m) \<in> set (match_paths fnm c ps)"
    by (auto split: if_splits)
  from ic have i: "i < length (children n)" "children n ! i = c"
    by (auto simp: in_set_enumerate_eq)
  from Cons.IH [OF m] i q show ?case by simp
qed

lemma set_sort_found: "set (sort_found lower sortsize found) = set found"
  by (simp add: sort_found_def py_sorted_def)

lemma sort_found_Nil: "sort_found lower sortsize [] = []"
  by (simp add: sort_found_def py_sorted_def)

lemma parent_of_found:
  assumes "node_at root l = Some t" "(q, m) \<in> set (match_paths fnm t ps)" "ps \<noteq> []"
  shows "\<exists>p. parent_of root (l @ q) = Some p \<and> p \<in> set (subtree_nodes root)"
proof -
  from match_paths_valid [OF assms(2)] have at: "node_at t q = Some m" and len: "length q = length ps"
    by simp_all
  from len assms(3) have q: "q \<noteq> []" by auto
  then have bl: "butlast (l @ q) = l @ butlast q" by (simp add: butlast_append)
  have "node_at t (butlast q @ [last q]) = Some m" using at q by simp
  then obtain p where p: "node_at t (butlast q) = Some p"
    by (auto simp: node_at_append split: option.splits)
  then have "node_at root (l @ butlast q) = Some p"
    using assms(1) by (simp add: node_at_append)
  with q bl have "parent_of root (l @ q) = Some p" by (simp add: parent_of_def)
  moreover have "p \<in> set (subtree_nodes root)"
    using \<open>node_at root (l @ butlast q) = Some p\<close> by (rule node_at_in_subtree)
  ultimately show ?thesis by blast
qed

lemma found_in_subtree:
  assumes "node_at root l = Some t" "(q, m) \<in> set (match_paths fnm t ps)"
  shows "m \<in> set (subtree_nodes root)"
proof -
  from match_paths_valid [OF assms(2)] have "node_at t q = Some m" by simp
  with assms(1) have "node_at root (l @ q) = Some m" by (simp add: node_at_append)
  then show ?thesis by (rule node_at_in_subtree)
qed

lemma walk_no_match:
  "resolver_glob fnm root root_loc path = Inr [] \<or>
   resolver_glob fnm root root_loc path = Inl ChildResolverError \<Longrightarrow>
     walk lower fnm arc sortsize root root_loc path rec = Inr (Some [])"
  by (auto simp: walk_def)

lemma walk_rec:
  "resolver_glob fnm root root_loc path = Inr ((l0, n0) # others) \<Longrightarrow>
   parent_of root l0 = Some p0 \<Longrightarrow> print_tree lower arc sortsize (length l0 - 1) p0 = None \<Longrightarrow>
     walk lower fnm arc sortsize root root_loc path True = Inr None"
  by (simp add: walk_def)

lemma walk_flat:
  "resolver_glob fnm root root_loc path = Inr found \<Longrightarrow> found \<noteq> [] \<Longrightarrow>
   parent_of root (fst (hd (sort_found lower sortsize found))) = Some p1 \<Longrightarrow>
   print_node arc False False (length (fst (hd (sort_found lower sortsize found))) - 1) p1 = None \<Longrightarrow>
   print_all arc 0 (map snd (sort_found lower sortsize found)) = None \<Longrightarrow>
     walk lower fnm arc sortsize root root_loc path False = Inr (Some (sort_found lower sortsize found))"
  by (cases found) (simp_all add: walk_def Let_def)

text \<open>
  Where \<open>walk\<close> agrees with the match of the full pattern.  Take a catalog whose sibling
  names are distinct and whose nodes carry the attributes that printing their type
  reads, a node \<open>t\<close> of it as the root of the query, and a relative slash-delimited path
  of segments none of which is empty, \<^verbatim>\<open>.\<close> or \<^verbatim>\<open>..\<close>, a segment without \<^verbatim>\<open>*\<close> and
  \<^verbatim>\<open>?\<close> matching a name exactly when equal to it.  Then \<open>walk\<close> raises nothing.
  Without \<^verbatim>\<open>rec\<close> it returns all nodes matching the full pattern, in the order of the
  active sort policy.  With \<^verbatim>\<open>rec\<close> it returns the empty list when no node matches,
  and otherwise \<^verbatim>\<open>None\<close>.
\<close>

lemma walk_glob:
  assumes at: "node_at root root_loc = Some t"
    and segs: "list_all name_segment (split_sep separator path)"
    and lit: "literal_segments fnm (split_sep separator path)"
    and dn: "distinct_names root"
    and pr: "list_all (printable arc) (subtree_nodes root)"
  shows "walk lower fnm arc sortsize root root_loc path False =
           Inr (Some (sort_found lower sortsize
             (found_under root_loc (match_paths fnm t (split_sep separator path))))) \<and>
         walk lower fnm arc sortsize root root_loc path True =
           (if match_paths fnm t (split_sep separator path) = [] then Inr (Some []) else Inr None)"
proof -
  let ?ps = "split_sep separator path"
  let ?M = "match_paths fnm t ?ps"
  let ?F = "found_under root_loc ?M"
  have ne: "?ps \<noteq> []" by (rule split_sep_nonempty)
  have dn': "\<And>l n. node_at root l = Some n \<Longrightarrow> distinct (map (\<lambda>c. name (attrs c)) (children n))"
    using dn node_at_in_subtree by (fastforce simp: distinct_names_def list_all_iff)
  have g: "resolver_glob fnm root root_loc path = resolver_glob_parts fnm root (Some root_loc) ?ps"
    using segs by (simp add: resolver_glob_def resolver_start_names)
  have printable: "\<And>n. n \<in> set (subtree_nodes root) \<Longrightarrow> printable arc n"
    using pr by (simp add: list_all_iff)
  have G: "resolver_glob fnm root root_loc path = Inr ?F \<or>
     (resolver_glob fnm root root_loc path = Inl ChildResolverError \<and> ?M = [])"
    unfolding g by (rule resolver_glob_parts_correct [OF _ lit segs ne at]) (rule dn')
  show ?thesis
  proof (cases "?M = []")
    case True
    with G have "resolver_glob fnm root root_loc path = Inr [] \<or>
        resolver_glob fnm root root_loc path = Inl ChildResolverError"
      by (auto simp: found_under_simps)
    then have "walk lower fnm arc sortsize root root_loc path rec = Inr (Some [])" for rec
      by (rule walk_no_match)
    with True show ?thesis by (simp add: found_under_simps sort_found_Nil)
  next
    case False
    with G have glob: "resolver_glob fnm root root_loc path = Inr ?F" by blast
    from False have Fne: "?F \<noteq> []" by (simp add: found_under_empty)
    have inF: "\<exists>p. parent_of root l' = Some p \<and> p \<in> set (subtree_nodes root)"
      and inF2:  "m \<in> set (subtree_nodes root)"
      if "(l', m) \<in> set ?F" for l' m
    proof -
      from that obtain q where q: "(q, m) \<in> set ?M" "l' = root_loc @ q"
        by (auto simp: found_under_def)
      from parent_of_found [OF at q(1) ne] q(2)
      show "\<exists>p. parent_of root l' = Some p \<and> p \<in> set (subtree_nodes root)" by simp
      from found_in_subtree [OF at q(1)] show "m \<in> set (subtree_nodes root)" .
    qed
    \<comment> \<open>the recursive listing\<close>
    obtain l0 n0 others where F: "?F = (l0, n0) # others"
      using Fne by (cases ?F) auto
    then have "(l0, n0) \<in> set ?F" by simp
    from inF [OF this] obtain p0 where p0: "parent_of root l0 = Some p0"
      "p0 \<in> set (subtree_nodes root)" by blast
    have "\<forall>n\<in>set (render_order lower sortsize p0). printable arc n"
      using render_order_subset [of lower sortsize p0] subtree_nodes_trans [OF _ p0(2)] printable
      by blast
    then have pt: "print_tree lower arc sortsize (length l0 - 1) p0 = None"
      by (simp add: print_tree_def print_all_printable)
    have rec: "walk lower fnm arc sortsize root root_loc path True = Inr None"
      using glob [unfolded F] p0(1) pt by (rule walk_rec)
    \<comment> \<open>the flat listing\<close>
    let ?S = "sort_found lower sortsize ?F"
    have Sne: "?S \<noteq> []" using Fne set_sort_found [of lower sortsize ?F] by (metis set_empty)
    then have "hd ?S \<in> set ?F" using set_sort_found [of lower sortsize ?F] by (metis hd_in_set)
    then have "(fst (hd ?S), snd (hd ?S)) \<in> set ?F" by simp
    from inF [OF this] obtain p1 where p1: "parent_of root (fst (hd ?S)) = Some p1"
      "p1 \<in> set (subtree_nodes root)" by blast
    have pp: "print_node arc False False (length (fst (hd ?S)) - 1) p1 = None"
      using printable [OF p1(2)] print_node_depth [of arc _ p1] by (simp add: printable_def)
    have "\<forall>n\<in>set (map snd ?S). printable arc n"
      using inF2 printable set_sort_found [of lower sortsize ?F] by fastforce
    then have pa: "print_all arc 0 (map snd ?S) = None" by (rule print_all_printable)
    have flat: "walk lower fnm arc sortsize root root_loc path False = Inr (Some ?S)"
      using glob Fne p1(1) pp pa by (rule walk_flat)
    from rec flat False show ?thesis by simp
  qed
qed


lemma wild_match_literal:
  "CHR ''*'' \<notin> set p \<Longrightarrow> CHR ''?'' \<notin> set p \<Longrightarrow> wild_match nm p = (nm = p)"
proof (induction p arbitrary: nm)
  case Nil
  then show ?case by (cases nm) simp_all
next
  case (Cons c p)
  then show ?case by (cases nm) auto
qed

lemma wild_match_literal_segments: "literal_segments wild_match parts"
  by (auto simp: literal_segments_def is_wildcard_def wild_match_literal)

lemmas walk_defs = walk_def resolver_glob_def resolver_start_def separator_def is_wildcard_def
  is_resolver_error_def sort_found_def parent_of_def print_tree_def print_node_def need_def

lemma walk_glob_example:
  "node_at ex_catalog [] = Some ex_catalog \<and>
   list_all name_segment (split_sep separator ''usb1/*/*.jpg'') \<and>
   literal_segments wild_match (split_sep separator ''usb1/*/*.jpg'') \<and>
   distinct_names ex_catalog \<and>
   list_all (printable False) (subtree_nodes ex_catalog) \<and>
   match_paths wild_match ex_catalog (split_sep separator ''usb1/*/*.jpg'') = [([0, 0, 1], ex_cover)] \<and>
   walk lower_ascii wild_match False False ex_catalog [] ''usb1/*/*.jpg'' False = Inr (Some [([0, 0, 1], ex_cover)]) \<and>
   walk lower_ascii wild_match False False ex_catalog [] ''usb1/*/*.jpg'' True = Inr None"
proof -
  have a: "node_at ex_catalog [] = Some ex_catalog" by simp
  have b: "list_all name_segment (split_sep separator ''usb1/*/*.jpg'')"
    by (simp add: separator_def name_segment_def)
  have c: "literal_segments wild_match (split_sep separator ''usb1/*/*.jpg'')"
    by (rule wild_match_literal_segments)
  have d: "distinct_names ex_catalog"
    by (simp add: distinct_names_def ex_defs)
  have e: "list_all (printable False) (subtree_nodes ex_catalog)"
    by (simp add: printable_def print_node_def need_def ex_defs type_defs)
  have m: "match_paths wild_match ex_catalog (split_sep separator ''usb1/*/*.jpg'')
      = [([0, 0, 1], ex_cover)]"
    by (simp add: separator_def ex_defs)
  have s: "sort_found lower_ascii False [([0, 0, 1], ex_cover)] = [([0, 0, 1], ex_cover)]"
    by (simp add: sort_found_def py_sorted_def)
  from walk_glob [OF a b c d e, where lower = lower_ascii and sortsize = False] m s
  have "walk lower_ascii wild_match False False ex_catalog [] ''usb1/*/*.jpg'' False
          = Inr (Some [([0, 0, 1], ex_cover)]) \<and>
        walk lower_ascii wild_match False False ex_catalog [] ''usb1/*/*.jpg'' True = Inr None"
    by (simp add: found_under_def)
  with a b c d e m show ?thesis by blast
qed

text \<open>
  Claim C8 fails on the code, in each of its three parts.

  \<^item> The list of matches is not returned: on the specification's example catalog the
    pattern \<^verbatim>\<open>usb1/*/*.jpg\<close> matches "cover.jpg"; listing it with \<^verbatim>\<open>rec=True\<close> ends in
    the bare \<^verbatim>\<open>return\<close>, and \<open>walk\<close> returns \<^verbatim>\<open>None\<close> where every other exit returns a
    list.
  \<^item> An error is raised: for the rooted path \<^verbatim>\<open>/nosuch/*\<close>, which no node matches, the
    resolver raises \<^verbatim>\<open>ResolverError\<close> (the root is named "top"); \<open>walk\<close> catches only its
    subclass \<^verbatim>\<open>ChildResolverError\<close>.
  \<^item> An empty list is returned although a node matches: the flattener builds
    \<open>ex_zip_members\<close>, where "photos.zip" has two children named "x"; the path
    \<^verbatim>\<open>usb1/photos.zip/x/y\<close> leads to the member "y" below the first, the resolver
    raises \<^verbatim>\<open>ChildResolverError\<close> below the second, and \<open>walk\<close> returns the empty list.
\<close>

theorem walk_diverges:
  "match_paths wild_match ex_catalog (split_sep separator ''usb1/*/*.jpg'') = [([0, 0, 1], ex_cover)] \<and>
   walk lower_ascii wild_match False False ex_catalog [] ''usb1/*/*.jpg'' True = Inr None \<and>
   walk lower_ascii wild_match False False ex_catalog [] ''/nosuch/*'' False = Inl ResolverError \<and>
   list_to_tree ex_zip_catalog [0, 0] [''x'', ''x/y'', ''a/x''] = Inr ex_zip_members \<and>
   match_paths wild_match ex_zip_members (split_sep separator ''usb1/photos.zip/x/y'') =
     [([0, 0, 0, 0], archive_node ''y'' ''x/y'' ''photos.zip'')] \<and>
   walk lower_ascii wild_match False False ex_zip_members [] ''usb1/photos.zip/x/y'' False = Inr (Some [])"
proof -
  have a: "match_paths wild_match ex_catalog (split_sep separator ''usb1/*/*.jpg'')
      = [([0, 0, 1], ex_cover)]"
    by (simp add: separator_def ex_defs)
  have b: "walk lower_ascii wild_match False False ex_catalog [] ''usb1/*/*.jpg'' True = Inr None"
    by (simp add: walk_defs sort_defs ex_defs type_defs)
  have c: "walk lower_ascii wild_match False False ex_catalog [] ''/nosuch/*'' False = Inl ResolverError"
    by (simp add: walk_defs sort_defs ex_defs type_defs)
  have d: "list_to_tree ex_zip_catalog [0, 0] [''x'', ''x/y'', ''a/x''] = Inr ex_zip_members"
    by (simp add: resolver_defs zip_defs ex_zip_members_def ex_defs Let_def)
  have e: "match_paths wild_match ex_zip_members (split_sep separator ''usb1/photos.zip/x/y'') =
     [([0, 0, 0, 0], archive_node ''y'' ''x/y'' ''photos.zip'')]"
    by (simp add: separator_def zip_defs ex_zip_members_def ex_defs)
  have f: "walk lower_ascii wild_match False False ex_zip_members [] ''usb1/photos.zip/x/y'' False
      = Inr (Some [])"
    by (simp add: walk_defs sort_defs zip_defs ex_zip_members_def ex_defs type_defs)
  from a b c d e f show ?thesis by blast
qed

section \<open>Relative paths\<close>

lemma last_not_member: "s \<noteq> [] \<Longrightarrow> c \<notin> set s \<Longrightarrow> last s \<noteq> c"
  by (metis last_in_set)

lemma plain_segments_Cons:
  "plain_segments (s # segs) \<longleftrightarrow>
     s \<noteq> [] \<and> s \<noteq> ''.'' \<and> s \<noteq> ''..'' \<and> CHR ''/'' \<notin> set s \<and> plain_segments segs"
  by (auto simp: plain_segments_def name_segment_def)

lemma plain_segments_append:
  "plain_segments (xs @ ys) \<longleftrightarrow> plain_segments xs \<and> plain_segments ys"
  by (simp add: plain_segments_def)

lemma plain_segments_no_sep: "plain_segments segs \<Longrightarrow> \<forall>x\<in>set segs. CHR ''/'' \<notin> set x"
  by (simp add: plain_segments_def list_all_iff)

lemma py_join_Cons:
  "py_join sep (x # xs) = x @ concat (map (\<lambda>s. sep @ s) xs)"
  by (induction sep xs arbitrary: x rule: py_join.induct) simp_all

lemma plain_join_hd:
  "plain_segments segs \<Longrightarrow> segs \<noteq> [] \<Longrightarrow>
     py_join ''/'' segs \<noteq> [] \<and> hd (py_join ''/'' segs) \<noteq> CHR ''/''"
  by (cases segs) (auto simp: plain_segments_Cons py_join_Cons hd_append dest: hd_in_set)

lemma split_abs_path:
  assumes "plain_segments segs" "segs \<noteq> []"
  shows "split_sep CHR ''/'' (abs_path segs) = [] # segs"
proof -
  have "split_sep CHR ''/'' (py_join [CHR ''/''] segs) = segs"
    using assms plain_segments_no_sep by (intro split_sep_join) auto
  then show ?thesis by (simp add: abs_path_def)
qed

lemma normpath_comps_plain:
  "plain_segments segs \<Longrightarrow> normpath_comps rooted segs acc = acc @ segs"
  by (induction segs arbitrary: acc) (simp_all add: plain_segments_Cons)

lemma splitroot_abs_path:
  assumes "plain_segments segs" "segs \<noteq> []"
  shows "splitroot (abs_path segs) = (''/'', py_join ''/'' segs)"
proof -
  from plain_join_hd [OF assms] obtain c cs where j: "py_join ''/'' segs = c # cs" "c \<noteq> CHR ''/''"
    by (cases "py_join ''/'' segs") auto
  then show ?thesis by (simp add: splitroot_def abs_path_def)
qed

lemma normpath_abs_path:
  assumes "plain_segments segs" "segs \<noteq> []"
  shows "os_path_normpath (abs_path segs) = abs_path segs"
proof -
  have s: "split_sep CHR ''/'' (py_join ''/'' segs) = segs"
    using assms plain_segments_no_sep split_sep_join [of segs "CHR ''/''"] by auto
  have ne: "abs_path segs \<noteq> []" by (simp add: abs_path_def)
  have "os_path_normpath (abs_path segs) = ''/'' @ py_join ''/'' segs"
    using ne by (simp add: os_path_normpath_def splitroot_abs_path [OF assms] s
        normpath_comps_plain [OF assms(1)])
  then show ?thesis by (simp add: abs_path_def)
qed

lemma abspath_abs_path:
  assumes "plain_segments segs" "segs \<noteq> []"
  shows "os_path_abspath wd (abs_path segs) = abs_path segs"
proof -
  have "os_path_isabs (abs_path segs)" by (simp add: os_path_isabs_def abs_path_def)
  then show ?thesis by (simp add: os_path_abspath_def normpath_abs_path [OF assms])
qed

lemma components_abs_path:
  assumes "plain_segments segs" "segs \<noteq> []"
  shows "filter (\<lambda>x. x \<noteq> []) (split_sep CHR ''/'' (abs_path segs)) = segs"
proof -
  have "\<forall>x\<in>set segs. x \<noteq> []" using assms(1) by (auto simp: plain_segments_def name_segment_def list_all_iff)
  then have "filter (\<lambda>x. x \<noteq> []) segs = segs" by (simp add: filter_id_conv)
  then show ?thesis by (simp add: split_abs_path [OF assms])
qed

lemma commonprefix_append: "commonprefix ss (ss @ rs) = ss"
  by (induction ss) simp_all

lemma foldl_join_plain:
  "plain_segments p \<Longrightarrow> x \<noteq> [] \<Longrightarrow> last x \<noteq> CHR ''/'' \<Longrightarrow>
     foldl os_path_join x p = x @ concat (map (\<lambda>s. ''/'' @ s) p)"
proof (induction p arbitrary: x)
  case Nil
  then show ?case by simp
next
  case (Cons s p)
  from Cons.prems(1) have s: "s \<noteq> []" "CHR ''/'' \<notin> set s" and p: "plain_segments p"
    by (simp_all add: plain_segments_Cons)
  from s have hd: "\<not> os_path_isabs s" by (cases s) (auto simp: os_path_isabs_def)
  have j: "os_path_join x s = x @ ''/'' @ s"
    using hd Cons.prems(2,3) by (simp add: os_path_join_def)
  have l: "last (x @ ''/'' @ s) \<noteq> CHR ''/''" using s last_not_member [of s] by simp
  from Cons.IH [OF p _ l] show ?case by (simp add: j)
qed

lemma relpath_inside:
  assumes "plain_segments ss" "plain_segments rs" "ss \<noteq> []" "rs \<noteq> []"
  shows "os_path_relpath wd (abs_path (ss @ rs)) (abs_path ss) = Inr (py_join ''/'' rs)"
proof -
  have pl: "plain_segments (ss @ rs)" using assms by (simp add: plain_segments_append)
  have ne: "ss @ rs \<noteq> []" using assms by simp
  obtain a p where rs: "rs = a # p" using assms(4) by (cases rs) auto
  with assms(2) have a: "a \<noteq> []" "CHR ''/'' \<notin> set a" and p: "plain_segments p"
    by (simp_all add: plain_segments_Cons)
  then have la: "last a \<noteq> CHR ''/''" by (intro last_not_member)
  have "abs_path (ss @ rs) \<noteq> []" by (simp add: abs_path_def)
  then have "os_path_relpath wd (abs_path (ss @ rs)) (abs_path ss)
      = (case rs of [] \<Rightarrow> Inr ''.'' | a # p \<Rightarrow> Inr (foldl os_path_join a p))"
    by (simp add: os_path_relpath_def abspath_abs_path [OF pl ne] abspath_abs_path [OF assms(1,3)]
        components_abs_path [OF pl ne] components_abs_path [OF assms(1,3)] commonprefix_append
        Let_def)
  also have "\<dots> = Inr (py_join ''/'' rs)"
    by (simp add: rs foldl_join_plain [OF p a(1) la] py_join_Cons)
  finally show ?thesis .
qed

lemma basename_abs_path:
  assumes "plain_segments ss" "ss \<noteq> []"
  shows "os_path_basename (abs_path ss) = last ss"
  using assms by (simp add: os_path_basename_def split_abs_path)

lemma plain_last:
  "plain_segments ss \<Longrightarrow> ss \<noteq> [] \<Longrightarrow> last ss \<noteq> [] \<and> CHR ''/'' \<notin> set (last ss)"
  by (induction ss) (auto simp: plain_segments_Cons)

lemma dir_relpath_inside:
  assumes "plain_segments ss" "plain_segments rs" "ss \<noteq> []" "rs \<noteq> []"
  shows "dir_relpath wd (abs_path (ss @ rs)) (abs_path ss) = Inr (py_join ''/'' rs)"
proof -
  have pl: "plain_segments (ss @ rs)" using assms by (simp add: plain_segments_append)
  have ne: "ss @ rs \<noteq> []" using assms by simp
  show ?thesis
    by (simp add: dir_relpath_def abspath_abs_path [OF pl ne] relpath_inside [OF assms])
qed

lemma file_relpath_inside:
  assumes "plain_segments ss" "plain_segments rs" "ss \<noteq> []" "rs \<noteq> []"
  shows "file_relpath wd (abs_path (ss @ rs)) (abs_path ss)
      = Inr (last ss @ ''/'' @ py_join ''/'' rs)"
proof -
  have pl: "plain_segments (ss @ rs)" using assms by (simp add: plain_segments_append)
  have ne: "ss @ rs \<noteq> []" using assms by simp
  from plain_last [OF assms(1,3)] have l: "last ss \<noteq> []" "last (last ss) \<noteq> CHR ''/''"
    by (simp_all add: last_not_member)
  from plain_join_hd [OF assms(2,4)] have "\<not> os_path_isabs (py_join ''/'' rs)"
    by (cases "py_join ''/'' rs") (auto simp: os_path_isabs_def)
  with l have "os_path_join (last ss) (py_join ''/'' rs) = last ss @ ''/'' @ py_join ''/'' rs"
    by (simp add: os_path_join_def)
  then show ?thesis
    by (simp add: file_relpath_def abspath_abs_path [OF pl ne] relpath_inside [OF assms]
        basename_abs_path [OF assms(1,3)])
qed

lemma attach_keeps_attrs:
  "node_at root l = Some n \<Longrightarrow> \<exists>n'. node_at (attach root t c) l = Some n' \<and> attrs n' = attrs n"
proof (induction root t c arbitrary: l n rule: attach.induct)
  case (1 r c)
  then show ?case
    by (cases l) (auto simp: add_child_def nth_append split: if_splits)
next
  case (2 r i t c)
  show ?case
  proof (cases l)
    case Nil
    with "2.prems" show ?thesis by auto
  next
    case (Cons j l')
    with "2.prems" have j: "j < length (children r)" and at: "node_at (children r ! j) l' = Some n"
      by (auto split: if_splits)
    show ?thesis
    proof (cases "i < length (children r)")
      case True
      show ?thesis
      proof (cases "j = i")
        case True
        with "2.IH" [OF \<open>i < length (children r)\<close>, of l' n] at j Cons show ?thesis by auto
      next
        case False
        with at j Cons True show ?thesis by auto
      qed
    next
      case False
      with "2.prems" show ?thesis by auto
    qed
  qed
qed

lemma attach_new_node:
  "node_at (attach root t c) l = Some n' \<Longrightarrow> node_at root l = None \<Longrightarrow> children c = [] \<Longrightarrow> n' = c"
proof (induction root t c arbitrary: l n' rule: attach.induct)
  case (1 r c)
  show ?case
  proof (cases l)
    case Nil
    with "1.prems" show ?thesis by simp
  next
    case (Cons j l')
    show ?thesis
    proof (cases "j < length (children r)")
      case True
      with "1.prems" Cons show ?thesis by (auto simp: add_child_def nth_append)
    next
      case False
      with "1.prems" Cons have "j = length (children r)" and "node_at c l' = Some n'"
        by (auto simp: add_child_def nth_append split: if_splits)
      with \<open>children c = []\<close> show ?thesis by (cases l') auto
    qed
  qed
next
  case (2 r i t c)
  show ?case
  proof (cases l)
    case Nil
    with "2.prems" show ?thesis by simp
  next
    case (Cons j l')
    show ?thesis
    proof (cases "i < length (children r)")
      case True
      show ?thesis
      proof (cases "j = i")
        case True
        with "2.IH" [OF \<open>i < length (children r)\<close>, of l' n'] "2.prems" Cons
          \<open>i < length (children r)\<close>
        show ?thesis by (auto split: if_splits)
      next
        case False
        with "2.prems" Cons True show ?thesis by (auto split: if_splits)
      qed
    next
      case False
      with "2.prems" show ?thesis by auto
    qed
  qed
qed

lemma node_at_attached:
  "node_at root parent = Some p \<Longrightarrow>
     node_at (attach root parent c) (parent @ [length (children p)]) = Some c"
  by (simp add: node_at_append node_at_attach add_child_def)

lemma add_entry_attaches:
  "add_entry root t nm = Inr r' \<Longrightarrow>
     r' = root \<or> (\<exists>l f an. r' = attach root l (archive_node f nm an))"
  unfolding add_entry_def Let_def
  by (auto split: option.splits if_splits sum.splits)

lemma add_entry_keeps_attrs:
  "add_entry root t nm = Inr r' \<Longrightarrow> node_at root l = Some n \<Longrightarrow>
     \<exists>n'. node_at r' l = Some n' \<and> attrs n' = attrs n"
  using add_entry_attaches [of root t nm r'] attach_keeps_attrs [of root l n] by auto

lemma add_entry_new_node:
  assumes "add_entry root t nm = Inr r'" "node_at r' l = Some n'" "node_at root l = None"
  shows "ntype (attrs n') = TYPE_ARC \<and> relpath (attrs n') = Some nm"
proof -
  from add_entry_attaches [OF assms(1)] assms(2,3)
  obtain t' f an where r': "r' = attach root t' (archive_node f nm an)" by auto
  have "children (archive_node f nm an) = []" by (simp add: archive_node_def)
  from attach_new_node [OF assms(2) [unfolded r'] assms(3) this]
  show ?thesis by (simp add: archive_node_def blank_def)
qed

lemma list_to_tree_keeps_attrs:
  "list_to_tree r t names = Inr r' \<Longrightarrow> node_at r l = Some n \<Longrightarrow>
     \<exists>n'. node_at r' l = Some n' \<and> attrs n' = attrs n"
proof (induction names arbitrary: r n)
  case Nil
  then show ?case by simp
next
  case (Cons m ms)
  from Cons.prems(1) obtain r1 where r1: "add_entry r t (py_rstrip [os_sep] m) = Inr r1"
    and rest: "list_to_tree r1 t ms = Inr r'"
    by (auto split: sum.splits)
  from add_entry_keeps_attrs [OF r1 Cons.prems(2)] obtain n1 where
    n1: "node_at r1 l = Some n1" "attrs n1 = attrs n" by blast
  from Cons.IH [OF rest n1(1)] n1(2) show ?case by auto
qed

lemma list_to_tree_new_node:
  "list_to_tree r t names = Inr r' \<Longrightarrow> node_at r' l = Some n' \<Longrightarrow> node_at r l = None \<Longrightarrow>
     ntype (attrs n') = TYPE_ARC \<and>
     (\<exists>m\<in>set names. relpath (attrs n') = Some (py_rstrip [os_sep] m))"
proof (induction names arbitrary: r)
  case Nil
  then show ?case by simp
next
  case (Cons m ms)
  from Cons.prems(1) obtain r1 where r1: "add_entry r t (py_rstrip [os_sep] m) = Inr r1"
    and rest: "list_to_tree r1 t ms = Inr r'"
    by (auto split: sum.splits)
  show ?case
  proof (cases "node_at r1 l")
    case None
    from Cons.IH [OF rest Cons.prems(2) None] show ?thesis by auto
  next
    case (Some n1)
    from list_to_tree_keeps_attrs [OF rest Some] Cons.prems(2) have a: "attrs n' = attrs n1"
      by auto
    from add_entry_new_node [OF r1 Some Cons.prems(3)] a show ?thesis by auto
  qed
qed

text \<open>
  Claim C5, as the code has it.  Let the storage path be \<^verbatim>\<open>/s1/.../sk\<close> and the path of
  an entry below it \<^verbatim>\<open>/s1/.../sk/r1/.../rm\<close> (name segments, \<open>k\<close> and \<open>m\<close> at least 1).
  \<open>dir_node\<close> stores the path relative to the storage path, \<^verbatim>\<open>r1/.../rm\<close>.
  \<open>file_node\<close>, for a file that exists and whose \<^verbatim>\<open>lstat\<close> succeeds, attaches a File
  node that stores the last segment of the storage path joined with that relative
  path, \<^verbatim>\<open>sk/r1/.../rm\<close>: relative to the storage root, not to the parent directory,
  and with one more leading segment than a directory gets.  When the file is listed as
  an archive, the tree is then handed to \<open>list_to_tree\<close>, and what \<open>file_node\<close> returns
  still holds the File node with these attributes.  Every listing by \<open>list_to_tree\<close>
  that returns keeps the attributes of each node that was in the tree, and each node
  it adds is an Archive node whose relative path is a member path of the listing
  (trailing separators stripped), a path inside the archive.
\<close>

theorem relpath_forms:
  assumes "plain_segments ss" "plain_segments rs" "ss \<noteq> []" "rs \<noteq> []"
    and "node_at root parent = Some p"
    and "path_exists e (abs_path (ss @ rs))"
    and "lstat_size e (abs_path (ss @ rs)) = Some sz"
  shows "dir_node e root parent nm (abs_path (ss @ rs)) (abs_path ss) =
           Inr (attach root parent (mk_node nm TYPE_DIR (py_join ''/'' rs) PyNone PyNone),
                parent @ [length (children p)]) \<and>
         file_node e hashing arc root parent nm (abs_path (ss @ rs)) (abs_path ss) =
           (if arc \<and> path_ext (abs_path (ss @ rs)) \<in> set (get_format e)
            then (case list_to_tree
                         (attach root parent
                            (mk_node nm TYPE_FILE (last ss @ ''/'' @ py_join ''/'' rs) (Val sz)
                               (if hashing then md5sum e (abs_path (ss @ rs)) else PyNone)))
                         (parent @ [length (children p)]) (get_names e (abs_path (ss @ rs))) of
                    Inl err \<Rightarrow> Inl err
                  | Inr root2 \<Rightarrow> Inr (Some (root2, parent @ [length (children p)])))
            else Inr (Some (attach root parent
                   (mk_node nm TYPE_FILE (last ss @ ''/'' @ py_join ''/'' rs) (Val sz)
                      (if hashing then md5sum e (abs_path (ss @ rs)) else PyNone)),
                 parent @ [length (children p)]))) \<and>
         (\<forall>root2 l.
            file_node e hashing arc root parent nm (abs_path (ss @ rs)) (abs_path ss) =
              Inr (Some (root2, l)) \<longrightarrow>
            (\<exists>n. node_at root2 l = Some n \<and>
                 attrs n = attrs (mk_node nm TYPE_FILE (last ss @ ''/'' @ py_join ''/'' rs) (Val sz)
                                    (if hashing then md5sum e (abs_path (ss @ rs)) else PyNone)))) \<and>
         (\<forall>r t names r' l.
            list_to_tree r t names = Inr r' \<longrightarrow>
            (case node_at r l of
               Some n \<Rightarrow> (\<exists>n'. node_at r' l = Some n' \<and> attrs n' = attrs n)
             | None \<Rightarrow>
                 (\<forall>n'. node_at r' l = Some n' \<longrightarrow>
                    ntype (attrs n') = TYPE_ARC \<and>
                    (\<exists>m\<in>set names. relpath (attrs n') = Some (py_rstrip [os_sep] m)))))"
proof -
  let ?P = "abs_path (ss @ rs)"
  let ?F = "mk_node nm TYPE_FILE (last ss @ ''/'' @ py_join ''/'' rs) (Val sz)
              (if hashing then md5sum e ?P else PyNone)"
  let ?l = "parent @ [length (children p)]"
  have pl: "plain_segments (ss @ rs)" using assms by (simp add: plain_segments_append)
  have ne: "ss @ rs \<noteq> []" using assms by simp
  note ab = abspath_abs_path [OF pl ne, of "cwd e"]
  have d: "dir_node e root parent nm ?P (abs_path ss) =
           Inr (attach root parent (mk_node nm TYPE_DIR (py_join ''/'' rs) PyNone PyNone), ?l)"
    using assms(5) by (simp add: dir_node_def dir_relpath_inside [OF assms(1-4)])
  have f: "file_node e hashing arc root parent nm ?P (abs_path ss) =
           (if arc \<and> path_ext ?P \<in> set (get_format e)
            then (case list_to_tree (attach root parent ?F) ?l (get_names e ?P) of
                    Inl err \<Rightarrow> Inl err
                  | Inr root2 \<Rightarrow> Inr (Some (root2, ?l)))
            else Inr (Some (attach root parent ?F, ?l)))"
    using assms(5-7) by (simp add: file_node_def ab file_relpath_inside [OF assms(1-4)] Let_def)
  have at: "node_at (attach root parent ?F) ?l = Some ?F"
    using assms(5) by (rule node_at_attached)
  have g: "\<exists>n. node_at root2 l = Some n \<and> attrs n = attrs ?F"
    if "file_node e hashing arc root parent nm ?P (abs_path ss) = Inr (Some (root2, l))"
    for root2 l
  proof (cases "arc \<and> path_ext ?P \<in> set (get_format e)")
    case True
    with that f have "list_to_tree (attach root parent ?F) ?l (get_names e ?P) = Inr root2"
      and "l = ?l"
      by (auto split: sum.splits)
    with list_to_tree_keeps_attrs [OF _ at] show ?thesis by blast
  next
    case False
    with that f have "root2 = attach root parent ?F" and "l = ?l" by auto
    with at show ?thesis by blast
  qed
  have h: "case node_at r l of
             Some n \<Rightarrow> (\<exists>n'. node_at r' l = Some n' \<and> attrs n' = attrs n)
           | None \<Rightarrow>
               (\<forall>n'. node_at r' l = Some n' \<longrightarrow>
                  ntype (attrs n') = TYPE_ARC \<and>
                  (\<exists>m\<in>set names. relpath (attrs n') = Some (py_rstrip [os_sep] m)))"
    if "list_to_tree r t names = Inr r'" for r t names r' l
  proof (cases "node_at r l")
    case None
    with list_to_tree_new_node [OF that _ None] show ?thesis by simp
  next
    case (Some n)
    with list_to_tree_keeps_attrs [OF that Some] show ?thesis by simp
  qed
  from d f g h show ?thesis by blast
qed

theorem relpath_forms_witness:
  "plain_segments [''mnt'', ''usb1''] \<and> plain_segments [''photos.zip''] \<and>
   node_at (add_child new_top_node (storage_node ''usb1'' 2000 5000 PyNone)) [0] =
     Some (storage_node ''usb1'' 2000 5000 PyNone) \<and>
   path_exists ex_env (abs_path ([''mnt'', ''usb1''] @ [''photos.zip''])) \<and>
   lstat_size ex_env (abs_path ([''mnt'', ''usb1''] @ [''photos.zip''])) = Some 4096 \<and>
   abs_path ([''mnt'', ''usb1''] @ [''photos.zip'']) = ''/mnt/usb1/photos.zip'' \<and>
   abs_path [''mnt'', ''usb1''] = ''/mnt/usb1'' \<and>
   path_ext ''/mnt/usb1/photos.zip'' \<in> set (get_format ex_env) \<and>
   get_names ex_env ''/mnt/usb1/photos.zip'' = [''a/b.jpg''] \<and>
   file_node ex_env True True (add_child new_top_node (storage_node ''usb1'' 2000 5000 PyNone)) [0]
       ''photos.zip'' ''/mnt/usb1/photos.zip'' ''/mnt/usb1'' =
     Inr (Some (attach ex_zip_catalog [0, 0] (archive_node ''b.jpg'' ''a/b.jpg'' ''photos.zip''),
                [0, 0])) \<and>
   node_at (attach ex_zip_catalog [0, 0] (archive_node ''b.jpg'' ''a/b.jpg'' ''photos.zip'')) [0, 0] =
     Some ex_photos_listed \<and>
   relpath (attrs ex_photos_listed) = Some ''usb1/photos.zip'' \<and>
   map (\<lambda>c. relpath (attrs c)) (children ex_photos_listed) = [Some ''a/b.jpg''] \<and>
   dir_node ex_env (add_child new_top_node (storage_node ''usb1'' 2000 5000 PyNone)) [0]
       ''photos.zip'' ''/mnt/usb1/photos.zip'' ''/mnt/usb1'' =
     Inr (attach (add_child new_top_node (storage_node ''usb1'' 2000 5000 PyNone)) [0]
            (mk_node ''photos.zip'' TYPE_DIR ''photos.zip'' PyNone PyNone), [0, 0])"
proof -
  let ?root = "add_child new_top_node (storage_node ''usb1'' 2000 5000 PyNone)"
  have a: "plain_segments [''mnt'', ''usb1'']" "plain_segments [''photos.zip'']"
    by (simp_all add: plain_segments_def name_segment_def)
  have b: "node_at ?root [0] = Some (storage_node ''usb1'' 2000 5000 PyNone)"
    by (simp add: add_child_def new_top_node_def)
  have p: "abs_path ([''mnt'', ''usb1''] @ [''photos.zip'']) = ''/mnt/usb1/photos.zip''"
    "abs_path [''mnt'', ''usb1''] = ''/mnt/usb1''"
    by (simp_all add: abs_path_def)
  have c: "path_exists ex_env (abs_path ([''mnt'', ''usb1''] @ [''photos.zip'']))"
    unfolding p by (simp add: ex_env_def)
  have d: "lstat_size ex_env (abs_path ([''mnt'', ''usb1''] @ [''photos.zip''])) = Some 4096"
    unfolding p by (simp add: ex_env_def)
  have x: "path_ext ''/mnt/usb1/photos.zip'' \<in> set (get_format ex_env)"
    by (simp add: path_ext_def os_path_basename_def ex_env_def Let_def)
  have g: "get_names ex_env ''/mnt/usb1/photos.zip'' = [''a/b.jpg'']"
    by (simp add: ex_env_def)
  have m: "md5sum ex_env ''/mnt/usb1/photos.zip'' = PyNone" by (simp add: ex_env_def)
  have l: "length (children (storage_node ''usb1'' 2000 5000 PyNone)) = 0"
    by (simp add: storage_node_def)
  have n: "node_at (attach ex_zip_catalog [0, 0] (archive_node ''b.jpg'' ''a/b.jpg'' ''photos.zip''))
      [0, 0] = Some ex_photos_listed"
    by (simp add: zip_defs ex_defs)
  have rp: "relpath (attrs ex_photos_listed) = Some ''usb1/photos.zip''"
    "map (\<lambda>c. relpath (attrs c)) (children ex_photos_listed) = [Some ''a/b.jpg'']"
    by (simp_all add: zip_defs ex_defs)
  from relpath_forms [OF a _ _ b c d,
      where nm = "''photos.zip''" and hashing = True and arc = True]
  have "file_node ex_env True True ?root [0] ''photos.zip'' ''/mnt/usb1/photos.zip'' ''/mnt/usb1'' =
     Inr (Some (attach ex_zip_catalog [0, 0] (archive_node ''b.jpg'' ''a/b.jpg'' ''photos.zip''),
                [0, 0])) \<and>
   dir_node ex_env ?root [0] ''photos.zip'' ''/mnt/usb1/photos.zip'' ''/mnt/usb1'' =
     Inr (attach ?root [0] (mk_node ''photos.zip'' TYPE_DIR ''photos.zip'' PyNone PyNone), [0, 0])"
    unfolding p by (simp add: l m x g resolver_defs zip_defs ex_defs Let_def)
  with a b c d p x g n rp show ?thesis by blast
qed

text \<open>
  The specification's scenarios refute claim C5 as stated: under the storage path
  \<^verbatim>\<open>/mnt/usb1\<close> the directory "music" gets the relative path \<^verbatim>\<open>music\<close> and the file
  "song.mp3" in it \<^verbatim>\<open>usb1/music/song.mp3\<close>, so files and directories are not in the
  same form; and the member \<^verbatim>\<open>a/b.jpg\<close> of "photos.zip" becomes an Archive node whose
  relative path is \<^verbatim>\<open>a/b.jpg\<close>, its path in the archive, which names no storage.
\<close>

theorem relpath_forms_differ:
  "dir_relpath ''/home/user'' ''/mnt/usb1/music'' ''/mnt/usb1'' = Inr ''music'' \<and>
   file_relpath ''/home/user'' ''/mnt/usb1/music/song.mp3'' ''/mnt/usb1'' = Inr ''usb1/music/song.mp3'' \<and>
   list_to_tree ex_zip_catalog [0, 0] [''a/b.jpg''] =
     Inr (attach ex_zip_catalog [0, 0] (archive_node ''b.jpg'' ''a/b.jpg'' ''photos.zip'')) \<and>
   relpath (attrs (archive_node ''b.jpg'' ''a/b.jpg'' ''photos.zip'')) = Some ''a/b.jpg''"
proof -
  have a: "dir_relpath ''/home/user'' ''/mnt/usb1/music'' ''/mnt/usb1'' = Inr ''music''"
    by (simp add: dir_relpath_def os_path_relpath_def os_path_abspath_def
        os_path_normpath_def splitroot_def os_path_isabs_def os_path_join_def Let_def)
  have b: "file_relpath ''/home/user'' ''/mnt/usb1/music/song.mp3'' ''/mnt/usb1''
      = Inr ''usb1/music/song.mp3''"
    by (simp add: file_relpath_def os_path_relpath_def os_path_abspath_def
        os_path_normpath_def splitroot_def os_path_isabs_def os_path_join_def
        os_path_basename_def Let_def)
  have c: "list_to_tree ex_zip_catalog [0, 0] [''a/b.jpg''] =
     Inr (attach ex_zip_catalog [0, 0] (archive_node ''b.jpg'' ''a/b.jpg'' ''photos.zip''))"
    by (simp add: resolver_defs zip_defs ex_defs Let_def)
  have d: "relpath (attrs (archive_node ''b.jpg'' ''a/b.jpg'' ''photos.zip'')) = Some ''a/b.jpg''"
    by (simp add: archive_node_def)
  from a b c d show ?thesis by blast
qed

end
